theory Spec2Isabelle
  imports Main
begin

section \<open>Python values\<close>

text \<open>
  A Python \<open>str\<close> is a sequence of Unicode code points; a code point is a natural number.
  \<open>py\<close> turns an ASCII literal into such a sequence.
\<close>

type_synonym pystr = "nat list"

definition py :: "string \<Rightarrow> pystr" where
  "py s = map of_char s"

text \<open>
  The two library facts about Unicode that the scripts depend on and that cannot be written
  out here are parameters of the model: \<open>str.lower\<close> (a function on whole strings), and the
  alphanumeric test behind the class \<open>\w\<close> for code points from 128 on. Below 128 everything
  is written out.
\<close>

record unicode =
  str_lower :: "pystr \<Rightarrow> pystr"
  uni_isalnum :: "nat \<Rightarrow> bool"

text \<open>The instance that lower-cases ASCII letters only and knows no other letters.\<close>

definition ascii_only :: unicode where
  "ascii_only = \<lparr> str_lower = map (\<lambda>c. if 65 \<le> c \<and> c \<le> 90 then c + 32 else c),
                   uni_isalnum = (\<lambda>c. False) \<rparr>"

text \<open>
  A cell of a \<open>DataFrame\<close> read by \<open>pd.read_csv\<close>, or any value handed to \<open>validate_email\<close>:
  a \<open>str\<close>, or something that is not a \<open>str\<close> (the \<open>NaN\<close> of an empty cell, a number or a
  boolean of a typed column). The scripts never distinguish the values that are not strings.
\<close>

datatype cell = Str pystr | NonStr

section \<open>The part of the \<open>re\<close> module that the scripts use\<close>

text \<open>
  Both patterns of the scripts are sequences of: \<open>^\<close>, \<open>$\<close>, one literal character, a greedy
  \<open>[class]+\<close> and a greedy \<open>[class]{k,}\<close>. \<open>bt n pat s\<close> is the backtracking matcher on the rest
  \<open>s\<close> of a subject of length \<open>n\<close>: it returns, in the order in which the engine tries them,
  the rests of the subject after every way of matching \<open>pat\<close>. A greedy repetition tries the
  longest run first. Without flags, \<open>^\<close> holds at position 0 only, and \<open>$\<close> holds at the end of
  the subject and also just before a newline that ends the subject.
\<close>

datatype atom = Bol | Eol | Lit nat | Plus "nat \<Rightarrow> bool" | AtLeast nat "nat \<Rightarrow> bool"

fun takes :: "(nat \<Rightarrow> bool) \<Rightarrow> pystr \<Rightarrow> pystr list" where
  "takes p [] = [ [] ]"
| "takes p (c # cs) = (if p c then takes p cs @ [c # cs] else [c # cs])"

fun bt :: "nat \<Rightarrow> atom list \<Rightarrow> pystr \<Rightarrow> pystr list" where
  "bt n [] s = [s]"
| "bt n (Bol # as) s = (if length s = n then bt n as s else [])"
| "bt n (Eol # as) s = (if s = [] \<or> s = [10] then bt n as s else [])"
| "bt n (Lit c # as) s = (case s of [] \<Rightarrow> [] | x # xs \<Rightarrow> if x = c then bt n as xs else [])"
| "bt n (Plus p # as) s = concat (map (bt n as) (butlast (takes p s)))"
| "bt n (AtLeast k p # as) s =
     concat (map (bt n as) (let l = takes p s in take (length l - k) l))"

text \<open>\<open>re.match(pat, s)\<close>: the first match at position 0; the value is \<open>match.group()\<close>.\<close>

definition re_match :: "atom list \<Rightarrow> pystr \<Rightarrow> pystr option" where
  "re_match pat s =
     (case bt (length s) pat s of [] \<Rightarrow> None | r # _ \<Rightarrow> Some (take (length s - length r) s))"

text \<open>\<open>re.search(pat, s)\<close>: the first match at the leftmost position that has one.\<close>

fun search_at :: "nat \<Rightarrow> atom list \<Rightarrow> pystr \<Rightarrow> pystr option" where
  "search_at n pat [] = (case bt n pat [] of [] \<Rightarrow> None | r # _ \<Rightarrow> Some [])"
| "search_at n pat (c # cs) =
     (case bt n pat (c # cs) of
        [] \<Rightarrow> search_at n pat cs
      | r # _ \<Rightarrow> Some (take (length (c # cs) - length r) (c # cs)))"

definition re_search :: "atom list \<Rightarrow> pystr \<Rightarrow> pystr option" where
  "re_search pat s = search_at (length s) pat s"

text \<open>\<open>re.sub('[class]', '', s)\<close>: every character of the class is deleted.\<close>

definition re_sub_delete :: "(nat \<Rightarrow> bool) \<Rightarrow> pystr \<Rightarrow> pystr" where
  "re_sub_delete cls s = filter (\<lambda>c. \<not> cls c) s"

subsection \<open>Character classes\<close>

definition az :: "nat \<Rightarrow> bool" where
  "az c = (97 \<le> c \<and> c \<le> 122)"

definition AZ :: "nat \<Rightarrow> bool" where
  "AZ c = (65 \<le> c \<and> c \<le> 90)"

definition digit :: "nat \<Rightarrow> bool" where
  "digit c = (48 \<le> c \<and> c \<le> 57)"

text \<open>\<open>[a-zA-Z0-9._%+-]\<close>\<close>

definition local_cls :: "nat \<Rightarrow> bool" where
  "local_cls c = (az c \<or> AZ c \<or> digit c \<or> c = 46 \<or> c = 95 \<or> c = 37 \<or> c = 43 \<or> c = 45)"

text \<open>\<open>[a-zA-Z0-9.-]\<close>\<close>

definition domain_cls :: "nat \<Rightarrow> bool" where
  "domain_cls c = (az c \<or> AZ c \<or> digit c \<or> c = 46 \<or> c = 45)"

text \<open>\<open>[a-zA-Z]\<close>\<close>

definition alpha_cls :: "nat \<Rightarrow> bool" where
  "alpha_cls c = (az c \<or> AZ c)"

text \<open>\<open>\w\<close> in a \<open>str\<close> pattern: alphanumeric in Unicode, or the underscore.\<close>

definition word_cls :: "unicode \<Rightarrow> nat \<Rightarrow> bool" where
  "word_cls U c = (if c < 128 then az c \<or> AZ c \<or> digit c \<or> c = 95 else uni_isalnum U c)"

text \<open>\<open>[^\w.-]\<close>\<close>

definition not_filename_cls :: "unicode \<Rightarrow> nat \<Rightarrow> bool" where
  "not_filename_cls U c = (\<not> (word_cls U c \<or> c = 46 \<or> c = 45))"

text \<open>\<open>str.isspace\<close> of one character: the white space that \<open>str.strip()\<close> removes.\<close>

definition isspace :: "nat \<Rightarrow> bool" where
  "isspace c = ((9 \<le> c \<and> c \<le> 13) \<or> (28 \<le> c \<and> c \<le> 32) \<or> c = 133 \<or> c = 160 \<or> c = 5760
     \<or> (8192 \<le> c \<and> c \<le> 8202) \<or> c = 8232 \<or> c = 8233 \<or> c = 8239 \<or> c = 8287 \<or> c = 12288)"

definition py_strip :: "pystr \<Rightarrow> pystr" where
  "py_strip s = rev (dropWhile isspace (rev (dropWhile isspace s)))"

text \<open>\<open>s.split(sep)\<close> for a separator of one character.\<close>

fun split_chr :: "nat \<Rightarrow> pystr \<Rightarrow> pystr list" where
  "split_chr sep [] = [ [] ]"
| "split_chr sep (c # cs) =
     (if c = sep then [] # split_chr sep cs
      else (case split_chr sep cs of [] \<Rightarrow> [ [c] ] | p # ps \<Rightarrow> (c # p) # ps))"

section \<open>\<open>validate_email\<close> and \<open>extract_domain\<close>\<close>

text \<open>
  The pattern of \<open>validate_email\<close>, \<^verbatim>\<open>^[a-zA-Z0-9._%+-]+@[a-zA-Z0-9.-]+\.[a-zA-Z]{2,}$\<close>, and
  the pattern that \<open>load_exclusion_emails\<close> searches for, the same without the anchors.
  The graphical script has the same two functions, word for word.
\<close>

definition search_pattern :: "atom list" where
  "search_pattern = [Plus local_cls, Lit 64, Plus domain_cls, Lit 46, AtLeast 2 alpha_cls]"

definition email_pattern :: "atom list" where
  "email_pattern = Bol # search_pattern @ [Eol]"

definition validate_email :: "cell \<Rightarrow> bool" where
  "validate_email email =
     (case email of
        NonStr \<Rightarrow> False
      | Str s \<Rightarrow> re_match email_pattern s \<noteq> None)"

definition unknown :: pystr where
  "unknown = py ''unknown''"

text \<open>
  \<open>extract_domain\<close>: a value that is not a string makes \<open>'@' in email\<close> raise, and the bare
  \<open>except\<close> answers \<open>'unknown'\<close>; so would an index error of \<open>split('@')[1]\<close>.
\<close>

definition extract_domain :: "unicode \<Rightarrow> cell \<Rightarrow> pystr" where
  "extract_domain U email =
     (case email of
        NonStr \<Rightarrow> unknown
      | Str s \<Rightarrow>
          if 64 \<in> set s then
            (case split_chr 64 s of
               _ # domain # _ \<Rightarrow> re_sub_delete (not_filename_cls U) domain
             | _ \<Rightarrow> unknown)
          else unknown)"

section \<open>Tables, files and notices\<close>

text \<open>
  What \<open>pd.read_csv\<close> returns: the column names, the dtype of each column and the rows. The
  \<open>.str\<close> accessor of a column exists only when the column holds objects (strings and
  \<open>NaN\<close>), not when it was read as numbers or booleans.
\<close>

datatype dtype = ObjectDtype | OtherDtype

record dataframe =
  columns :: "pystr list"
  dtypes :: "pystr \<Rightarrow> dtype"
  rows :: "(pystr \<Rightarrow> cell) list"

text \<open>A written table: its header line and its records.\<close>

record table =
  header :: "pystr list"
  body :: "cell list list"

text \<open>\<open>Sibling p name\<close> is \<open>Path(p).parent / name\<close>.\<close>

datatype path = Sibling pystr pystr

type_synonym fs = "path \<rightharpoonup> table"

datatype exn = ReadError | ValueError "pystr list" | AttributeError | WriteError

datatype warning = NoData | NoValidEmails

datatype err_src = Processing_csv | Saving_output

datatype log_msg =
    Banner
  | No_csv_selected
  | Txt_selected pystr
  | No_txt_selected
  | Loading_csv pystr
  | Loaded_rows nat
  | Phase1_filtered nat nat
  | Loaded_exclusions nat
  | Error_reading_exclusions exn
  | Phase2_excluded nat
  | Invalid_skipped cell
  | Skipped_invalid nat
  | Detected_domain pystr
  | Multiple_domains "pystr set"
  | Using_primary pystr
  | Processing_failed
  | Output_saved path
  | Total_emails nat
  | Completed
  | Completed_with_errors

text \<open>\<open>Log\<close> is a \<open>safe_print\<close>; the other three are the dialogs of \<open>messagebox\<close>.\<close>

datatype event =
    Log log_msg
  | ShowWarning warning
  | ShowError err_src exn
  | ShowInfo pystr nat

text \<open>
  The world of one run: what reading the table and reading the lines of the exclusion file
  give, and where a file can be written.
\<close>

record env =
  read_csv :: "pystr \<Rightarrow> exn + dataframe"
  read_lines :: "pystr \<Rightarrow> exn + pystr list"
  can_write :: "path \<Rightarrow> bool"

section \<open>The pipeline of \<open>csv_email_processor.py\<close>\<close>

text \<open>
  The functions below follow \<open>csv_email_processor.py\<close>. The method \<open>process_files\<close> of
  \<open>csv_email_processor_gui.py\<close> runs the same steps with the same expressions, in one
  function, and writes its messages to a log window.
\<close>

definition email_column :: pystr where
  "email_column = py ''Email Address [Required]''"

definition status_column :: pystr where
  "status_column = py ''Last Sign In [READ ONLY]''"

definition never_logged_in :: pystr where
  "never_logged_in = py ''Never logged in''"

definition required_columns :: "pystr list" where
  "required_columns = [email_column, status_column]"

definition validate_csv_format :: "dataframe \<Rightarrow> exn + bool" where
  "validate_csv_format df =
     (let missing_columns = filter (\<lambda>col. col \<notin> set (columns df)) required_columns
      in if missing_columns \<noteq> [] then Inl (ValueError missing_columns) else Inr True)"

text \<open>\<open>df[mask]\<close>: the rows at which the mask is true, in their order.\<close>

definition bool_index :: "bool list \<Rightarrow> 'a list \<Rightarrow> 'a list" where
  "bool_index sel xs = map snd (filter fst (zip sel xs))"

text \<open>\<open>df[df['Last Sign In [READ ONLY]'] != 'Never logged in']\<close>\<close>

definition phase1 :: "(pystr \<Rightarrow> cell) list \<Rightarrow> (pystr \<Rightarrow> cell) list" where
  "phase1 rs = bool_index (map (\<lambda>r. r status_column \<noteq> Str never_logged_in) rs) rs"

text \<open>The loop of \<open>load_exclusion_emails\<close> over the lines of the file.\<close>

fun add_lines :: "unicode \<Rightarrow> pystr list \<Rightarrow> pystr set \<Rightarrow> pystr set" where
  "add_lines U [] exclusion_emails = exclusion_emails"
| "add_lines U (raw # rest) exclusion_emails =
     (let line = py_strip raw in
      if line \<noteq> [] then
        (case re_search search_pattern line of
           Some email_match \<Rightarrow> add_lines U rest (insert (str_lower U email_match) exclusion_emails)
         | None \<Rightarrow>
             if validate_email (Str line)
             then add_lines U rest (insert (str_lower U line) exclusion_emails)
             else add_lines U rest exclusion_emails)
      else add_lines U rest exclusion_emails)"

definition load_exclusion_emails :: "unicode \<Rightarrow> env \<Rightarrow> pystr \<Rightarrow> pystr set \<times> event list" where
  "load_exclusion_emails U env txt_path =
     (case read_lines env txt_path of
        Inl e \<Rightarrow> ({}, [Log (Error_reading_exclusions e)])
      | Inr lines \<Rightarrow>
          (let exclusion_emails = add_lines U lines {}
           in (exclusion_emails, [Log (Loaded_exclusions (card exclusion_emails))])))"

text \<open>
  \<open>column.str.lower().isin(exclusion_emails)\<close>. On a column that is not of object dtype the
  accessor \<open>.str\<close> raises an \<open>AttributeError\<close>. In a column of objects \<open>.str.lower()\<close> turns a
  value that is not a string into \<open>NaN\<close>, which is in no set of strings.
\<close>

definition str_lower_isin :: "unicode \<Rightarrow> dtype \<Rightarrow> pystr set \<Rightarrow> cell list \<Rightarrow> exn + bool list" where
  "str_lower_isin U dt exclusion_emails col =
     (if dt \<noteq> ObjectDtype then Inl AttributeError
      else Inr (map (\<lambda>c. case c of Str s \<Rightarrow> str_lower U s \<in> exclusion_emails | NonStr \<Rightarrow> False) col))"

definition phase2 ::
  "unicode \<Rightarrow> env \<Rightarrow> pystr option \<Rightarrow> dtype \<Rightarrow> (pystr \<Rightarrow> cell) list
     \<Rightarrow> event list \<times> (exn + (pystr \<Rightarrow> cell) list)" where
  "phase2 U env txt_path dt df_filtered =
     (case txt_path of
        None \<Rightarrow> ([], Inr df_filtered)
      | Some p \<Rightarrow>
          if p = [] then ([], Inr df_filtered)
          else
            (case load_exclusion_emails U env p of
               (exclusion_emails, ev) \<Rightarrow>
                 if exclusion_emails \<noteq> {} then
                   (case str_lower_isin U dt exclusion_emails (map (\<lambda>r. r email_column) df_filtered) of
                      Inl e \<Rightarrow> (ev, Inl e)
                    | Inr excluded \<Rightarrow>
                        (let kept = bool_index (map Not excluded) df_filtered
                         in (ev @ [Log (Phase2_excluded (length df_filtered - length kept))], Inr kept)))
                 else (ev, Inr df_filtered)))"

text \<open>The loop over \<open>emails\<close>: the valid ones, the count of the others, the lines printed.\<close>

fun validate_loop :: "cell list \<Rightarrow> cell list \<times> nat \<times> event list \<Rightarrow> cell list \<times> nat \<times> event list" where
  "validate_loop [] acc = acc"
| "validate_loop (email # rest) (valid_emails, invalid_count, ev) =
     (if validate_email email
      then validate_loop rest (valid_emails @ [email], invalid_count, ev)
      else validate_loop rest (valid_emails, invalid_count + 1, ev @ [Log (Invalid_skipped email)]))"

text \<open>The body of the \<open>try\<close> of \<open>process_csv\<close>; \<open>Inl\<close> is an exception that leaves it.\<close>

definition process_csv_try ::
  "unicode \<Rightarrow> env \<Rightarrow> pystr \<Rightarrow> pystr option
     \<Rightarrow> event list \<times> (exn + (cell list \<times> pystr \<times> pystr) option)" where
  "process_csv_try U env csv_path txt_path =
     (let ev0 = [Log (Loading_csv csv_path)] in
      case read_csv env csv_path of
        Inl e \<Rightarrow> (ev0, Inl e)
      | Inr df \<Rightarrow>
         (let ev1 = ev0 @ [Log (Loaded_rows (length (rows df)))] in
          case validate_csv_format df of
            Inl e \<Rightarrow> (ev1, Inl e)
          | Inr _ \<Rightarrow>
             (let initial_count = length (rows df);
                  df_filtered = phase1 (rows df);
                  filtered_count = length df_filtered;
                  ev2 = ev1 @ [Log (Phase1_filtered (initial_count - filtered_count) filtered_count)]
              in if filtered_count = 0 then (ev2 @ [ShowWarning NoData], Inr None)
                 else
                   (case phase2 U env txt_path (dtypes df email_column) df_filtered of
                      (ev3, Inl e) \<Rightarrow> (ev2 @ ev3, Inl e)
                    | (ev3, Inr df_filtered') \<Rightarrow>
                       (case validate_loop (map (\<lambda>r. r email_column) df_filtered') ([], 0, []) of
                          (valid_emails, invalid_count, ev4) \<Rightarrow>
                            (let ev5 = ev2 @ ev3 @ ev4
                                   @ (if invalid_count > 0 then [Log (Skipped_invalid invalid_count)] else [])
                             in case valid_emails of
                                  [] \<Rightarrow> (ev5 @ [ShowWarning NoValidEmails], Inr None)
                                | first # _ \<Rightarrow>
                                   (let domain = extract_domain U first;
                                        domains = set (map (extract_domain U) valid_emails)
                                    in (ev5 @ [Log (Detected_domain domain)]
                                          @ (if card domains > 1
                                             then [Log (Multiple_domains domains), Log (Using_primary domain)]
                                             else []),
                                        Inr (Some (valid_emails, domain, csv_path))))))))))"

definition process_csv ::
  "unicode \<Rightarrow> env \<Rightarrow> pystr \<Rightarrow> pystr option \<Rightarrow> event list \<times> (cell list \<times> pystr \<times> pystr) option" where
  "process_csv U env csv_path txt_path =
     (case process_csv_try U env csv_path txt_path of
        (ev, Inl e) \<Rightarrow> (ev @ [ShowError Processing_csv e], None)
      | (ev, Inr r) \<Rightarrow> (ev, r))"

subsection \<open>Writing\<close>

text \<open>\<open>pd.DataFrame({'primaryEmail': emails})\<close>\<close>

definition output_frame :: "cell list \<Rightarrow> dataframe" where
  "output_frame emails =
     \<lparr> columns = [py ''primaryEmail''], dtypes = (\<lambda>c. ObjectDtype), rows = map (\<lambda>e c. e) emails \<rparr>"

fun digits :: "nat \<Rightarrow> pystr" where
  "digits n = (if n < 10 then [48 + n] else digits (n div 10) @ [48 + n mod 10])"

text \<open>
  What \<open>df.to_csv(path, index=...)\<close> writes: with the index, every line starts with one more
  field, the row number (and the header with an empty name).
\<close>

definition render :: "bool \<Rightarrow> dataframe \<Rightarrow> table" where
  "render index df =
     \<lparr> header = (if index then [ [] ] else []) @ columns df,
       body = map (\<lambda>(i, r). (if index then [Str (digits i)] else []) @ map r (columns df))
                  (enumerate 0 (rows df)) \<rparr>"

definition to_csv :: "env \<Rightarrow> dataframe \<Rightarrow> path \<Rightarrow> bool \<Rightarrow> fs \<Rightarrow> exn + fs" where
  "to_csv env df p index files =
     (if can_write env p then Inr (files(p \<mapsto> render index df)) else Inl WriteError)"

definition save_output ::
  "env \<Rightarrow> cell list \<Rightarrow> pystr \<Rightarrow> pystr \<Rightarrow> fs \<Rightarrow> event list \<times> path option \<times> fs" where
  "save_output env emails domain csv_path files =
     (let output_filename = domain @ py ''-to-delete.csv'';
          output_path = Sibling csv_path output_filename;
          output_df = output_frame emails
      in case to_csv env output_df output_path False files of
           Inl e \<Rightarrow> ([ShowError Saving_output e], None, files)
         | Inr files' \<Rightarrow>
             ([Log (Output_saved output_path), Log (Total_emails (length emails)),
               ShowInfo output_filename (length emails)],
              Some output_path, files'))"

text \<open>
  \<open>main\<close>, from the two answers of the file dialogs on: the path of the table (empty when the
  dialog was cancelled) and the path of the exclusion list, if any. The result is what was
  printed and shown, and the files after the run. The two lines of the banner are one event.
  \<open>process_csv\<close> and \<open>save_output\<close> catch every exception themselves, so the outer \<open>try\<close>
  of \<open>main\<close> has nothing left to catch.
\<close>

definition main :: "unicode \<Rightarrow> env \<Rightarrow> pystr \<Rightarrow> pystr option \<Rightarrow> fs \<Rightarrow> event list \<times> fs" where
  "main U env csv_path txt_path files =
     (if csv_path = [] then ([Log Banner, Log No_csv_selected], files)
      else
        (let ev0 = [Log Banner,
                    (case txt_path of
                       None \<Rightarrow> Log No_txt_selected
                     | Some p \<Rightarrow> if p = [] then Log No_txt_selected else Log (Txt_selected p))]
         in case process_csv U env csv_path txt_path of
              (ev1, None) \<Rightarrow> (ev0 @ ev1 @ [Log Processing_failed], files)
            | (ev1, Some (emails, domain, input_path)) \<Rightarrow>
                (case save_output env emails domain input_path files of
                   (ev2, output_path, files') \<Rightarrow>
                     (ev0 @ ev1 @ ev2
                        @ [if output_path \<noteq> None then Log Completed else Log Completed_with_errors],
                      files'))))"

section \<open>The words of the specification\<close>

text \<open>
  A full match of \<^verbatim>\<open>[A-Za-z0-9._%+-]+@[A-Za-z0-9.-]+\.[A-Za-z]{2,}\<close>: the whole value is a
  local part, an \<open>@\<close>, a domain, a dot and at least two letters.
\<close>

definition matches_fully :: "pystr \<Rightarrow> bool" where
  "matches_fully s = (\<exists>l d t. s = l @ [64] @ d @ [46] @ t
      \<and> l \<noteq> [] \<and> list_all local_cls l
      \<and> d \<noteq> [] \<and> list_all domain_cls d
      \<and> 2 \<le> length t \<and> list_all alpha_cls t)"

text \<open>\<open>[A-Za-z0-9._-]\<close>, and the substring after the first \<open>@\<close> stripped to that class.\<close>

definition filename_cls :: "nat \<Rightarrow> bool" where
  "filename_cls c = (az c \<or> AZ c \<or> digit c \<or> c = 46 \<or> c = 95 \<or> c = 45)"

definition after_first_at :: "pystr \<Rightarrow> pystr" where
  "after_first_at s = drop 1 (dropWhile (\<lambda>c. c \<noteq> 64) s)"

definition stripped_domain :: "pystr \<Rightarrow> pystr" where
  "stripped_domain s = filter filename_cls (after_first_at s)"

text \<open>
  The exclusion set of a run (empty when no exclusion file was chosen), and the rows that
  survive the three passes.
\<close>

definition exclusion_set :: "unicode \<Rightarrow> env \<Rightarrow> pystr option \<Rightarrow> pystr set" where
  "exclusion_set U env txt_path =
     (case txt_path of
        None \<Rightarrow> {}
      | Some p \<Rightarrow> if p = [] then {} else fst (load_exclusion_emails U env p))"

definition logged_in :: "(pystr \<Rightarrow> cell) \<Rightarrow> bool" where
  "logged_in r = (r status_column \<noteq> Str never_logged_in)"

definition excluded :: "unicode \<Rightarrow> pystr set \<Rightarrow> (pystr \<Rightarrow> cell) \<Rightarrow> bool" where
  "excluded U E r = (case r email_column of Str s \<Rightarrow> str_lower U s \<in> E | NonStr \<Rightarrow> False)"

definition survives :: "unicode \<Rightarrow> pystr set \<Rightarrow> (pystr \<Rightarrow> cell) \<Rightarrow> bool" where
  "survives U E r = (logged_in r \<and> \<not> excluded U E r \<and> validate_email (r email_column))"

text \<open>What one line of the exclusion file adds to the set.\<close>

definition line_emails :: "unicode \<Rightarrow> pystr \<Rightarrow> pystr set" where
  "line_emails U raw = add_lines U [raw] {}"

definition is_notice :: "event \<Rightarrow> bool" where
  "is_notice e = (case e of ShowWarning _ \<Rightarrow> True | ShowError _ _ \<Rightarrow> True | _ \<Rightarrow> False)"

text \<open>
  The outcome of \<open>process_csv\<close> in one expression, and the file that \<open>save_output\<close> writes.
\<close>

definition survivors :: "unicode \<Rightarrow> env \<Rightarrow> pystr option \<Rightarrow> dataframe \<Rightarrow> (pystr \<Rightarrow> cell) list" where
  "survivors U env txt_path df = filter (survives U (exclusion_set U env txt_path)) (rows df)"

definition process_outcome ::
  "unicode \<Rightarrow> env \<Rightarrow> pystr \<Rightarrow> pystr option \<Rightarrow> (cell list \<times> pystr \<times> pystr) option" where
  "process_outcome U env csv tx =
     (case read_csv env csv of
        Inl e \<Rightarrow> None
      | Inr df \<Rightarrow>
          if \<not> set required_columns \<subseteq> set (columns df) then None
          else if filter logged_in (rows df) = [] then None
          else if exclusion_set U env tx \<noteq> {} \<and> dtypes df email_column \<noteq> ObjectDtype then None
          else (case map (\<lambda>r. r email_column) (survivors U env tx df) of
                  [] \<Rightarrow> None
                | first # rest \<Rightarrow> Some (first # rest, extract_domain U first, csv)))"

definition output_path :: "pystr \<Rightarrow> pystr \<Rightarrow> path" where
  "output_path csv_path domain = Sibling csv_path (domain @ py ''-to-delete.csv'')"

definition output_table :: "cell list \<Rightarrow> table" where
  "output_table emails = \<lparr> header = [py ''primaryEmail''], body = map (\<lambda>e. [e]) emails \<rparr>"

text \<open>Rows and tables to run the pipeline on.\<close>

definition mk_row :: "cell \<Rightarrow> cell \<Rightarrow> pystr \<Rightarrow> cell" where
  "mk_row email status = (\<lambda>c. if c = email_column then email else if c = status_column then status else NonStr)"

definition mk_frame :: "(pystr \<Rightarrow> cell) list \<Rightarrow> dataframe" where
  "mk_frame rs = \<lparr> columns = [email_column, status_column], dtypes = (\<lambda>c. ObjectDtype), rows = rs \<rparr>"

definition row_a :: "pystr \<Rightarrow> cell" where
  "row_a = mk_row (Str (py ''a@x.com'')) (Str (py ''Never logged in''))"

definition row_b :: "pystr \<Rightarrow> cell" where
  "row_b = mk_row (Str (py ''b@x.com'')) (Str (py ''2023-01-01''))"

definition row_bad :: "pystr \<Rightarrow> cell" where
  "row_bad = mk_row (Str (py ''bad@@x'')) (Str (py ''2023-01-01''))"

definition row_c :: "pystr \<Rightarrow> cell" where
  "row_c = mk_row (Str (py ''C@x.com'')) (Str (py ''never logged in''))"

definition row_nl :: "pystr \<Rightarrow> cell" where
  "row_nl = mk_row (Str (py ''a@x.com'' @ [10])) (Str (py ''2023-01-01''))"

definition row_d :: "pystr \<Rightarrow> cell" where
  "row_d = mk_row (Str (py ''d@y.org'')) (Str (py ''2024-05-05''))"

definition env_of :: "(pystr \<Rightarrow> cell) list \<Rightarrow> (exn + pystr list) \<Rightarrow> bool \<Rightarrow> env" where
  "env_of rs excl w = \<lparr> read_csv = (\<lambda>p. Inr (mk_frame rs)), read_lines = (\<lambda>p. excl), can_write = (\<lambda>p. w) \<rparr>"

definition in_csv :: pystr where
  "in_csv = py ''/data/users.csv''"

definition ex_txt :: pystr where
  "ex_txt = py ''/data/exclude.txt''"

definition table_b :: table where
  "table_b = \<lparr> header = [py ''primaryEmail''], body = [ [Str (py ''b@x.com'')] ] \<rparr>"

definition out_x :: path where
  "out_x = Sibling in_csv (py ''x.com-to-delete.csv'')"

definition env2 :: env where
  "env2 = env_of [row_a, row_b, row_d] (Inr [py ''B@x.com'' @ [10] ]) True"

definition table_d :: table where
  "table_d = \<lparr> header = [py ''primaryEmail''], body = [ [Str (py ''d@y.org'')] ] \<rparr>"

definition out_y :: path where
  "out_y = Sibling in_csv (py ''y.org-to-delete.csv'')"

definition frame_no_status :: dataframe where
  "frame_no_status = \<lparr> columns = [email_column], dtypes = (\<lambda>c. ObjectDtype), rows = [row_b] \<rparr>"

definition env_no_status :: env where
  "env_no_status = \<lparr> read_csv = (\<lambda>p. Inr frame_no_status), read_lines = (\<lambda>p. Inr []), can_write = (\<lambda>p. True) \<rparr>"

definition env_two :: env where
  "env_two = env_of [row_a, row_b, row_d] (Inr []) True"

definition table_nl :: table where
  "table_nl = \<lparr> header = [py ''primaryEmail''], body = [ [Str (py ''a@x.com'' @ [10])] ] \<rparr>"

definition env_unreadable :: env where
  "env_unreadable = env_of [row_a, row_b, row_bad] (Inl ReadError) True"

definition env_no_csv :: env where
  "env_no_csv = \<lparr> read_csv = (\<lambda>p. Inl ReadError), read_lines = (\<lambda>p. Inr []), can_write = (\<lambda>p. True) \<rparr>"

definition env_unwritable :: env where
  "env_unwritable = env_of [row_b] (Inr []) False"

definition contact_line :: pystr where
  "contact_line = py ''Contact: C@x.com please remove'' @ [10]"

definition bare_line :: pystr where
  "bare_line = py ''  c@X.com '' @ [10]"

definition env_lines :: env where
  "env_lines = env_of [row_b] (Inr [contact_line, bare_line, py ''no email here'' @ [10], [10] ]) True"

section \<open>Facts about the matcher\<close>

lemma set_takes: "set (takes p s) = {v. \<exists>u. s = u @ v \<and> list_all p u}"
  by (induction s) (auto simp: Cons_eq_append_conv)

lemma butlast_takes:
  "butlast (takes p s) = (case s of [] \<Rightarrow> [] | c # cs \<Rightarrow> if p c then takes p cs else [])"
  by (cases s) simp_all

lemma length_takes_pos: "0 < length (takes p s)"
  by (induction s) simp_all

lemma take_takes:
  "take (length (takes p s) - k) (takes p s) =
     (case k of 0 \<Rightarrow> takes p s
      | Suc j \<Rightarrow> (case s of [] \<Rightarrow> []
                  | c # cs \<Rightarrow> if p c then take (length (takes p cs) - j) (takes p cs) else []))"
  by (cases k; cases s) simp_all

lemma set_take_takes:
  "set (take (length (takes p s) - k) (takes p s)) = {v. \<exists>u. s = u @ v \<and> k \<le> length u \<and> list_all p u}"
proof (induction s arbitrary: k)
  case Nil
  show ?case by (cases k) auto
next
  case (Cons c cs)
  show ?case
  proof (cases k)
    case 0
    then show ?thesis using set_takes [of p "c # cs"] by simp
  next
    case (Suc j)
    have "set (take (length (takes p (c # cs)) - Suc j) (takes p (c # cs)))
          = (if p c then {v. \<exists>u. cs = u @ v \<and> j \<le> length u \<and> list_all p u} else {})"
      using Cons.IH [of j] by (simp add: take_takes [of p "c # cs" "Suc j"] del: takes.simps)
    also have "\<dots> = {v. \<exists>u. c # cs = u @ v \<and> Suc j \<le> length u \<and> list_all p u}"
      by (auto simp: Cons_eq_append_conv)
    finally show ?thesis using Suc by simp
  qed
qed

lemma in_bt_Nil: "r \<in> set (bt n [] s) \<longleftrightarrow> r = s"
  by auto

lemma in_bt_Bol: "r \<in> set (bt n (Bol # as) s) \<longleftrightarrow> length s = n \<and> r \<in> set (bt n as s)"
  by simp

lemma in_bt_Eol: "r \<in> set (bt n (Eol # as) s) \<longleftrightarrow> (s = [] \<or> s = [10]) \<and> r \<in> set (bt n as s)"
  by simp

lemma in_bt_Lit: "r \<in> set (bt n (Lit c # as) s) \<longleftrightarrow> (\<exists>v. s = c # v \<and> r \<in> set (bt n as v))"
  by (cases s) auto

lemma in_bt_Plus:
  "r \<in> set (bt n (Plus p # as) s) \<longleftrightarrow>
     (\<exists>u v. s = u @ v \<and> u \<noteq> [] \<and> list_all p u \<and> r \<in> set (bt n as v))"
proof -
  have "set (butlast (takes p s)) = {v. \<exists>u. s = u @ v \<and> u \<noteq> [] \<and> list_all p u}"
    by (cases s) (auto simp: set_takes Cons_eq_append_conv)
  then show ?thesis by auto
qed

lemma in_bt_AtLeast:
  "r \<in> set (bt n (AtLeast k p # as) s) \<longleftrightarrow>
     (\<exists>u v. s = u @ v \<and> k \<le> length u \<and> list_all p u \<and> r \<in> set (bt n as v))"
  using set_take_takes [of p s k] by (auto simp: Let_def)

lemmas in_bt = in_bt_Nil in_bt_Bol in_bt_Eol in_bt_Lit in_bt_Plus in_bt_AtLeast

lemma re_match_Some: "re_match pat s \<noteq> None \<longleftrightarrow> (\<exists>r. r \<in> set (bt (length s) pat s))"
  by (cases "bt (length s) pat s") (auto simp: re_match_def)

lemma bt_email_pattern:
  "(\<exists>r. r \<in> set (bt n email_pattern s)) \<longleftrightarrow>
     length s = n \<and> (\<exists>l d t e. s = l @ [64] @ d @ [46] @ t @ e
      \<and> l \<noteq> [] \<and> list_all local_cls l \<and> d \<noteq> [] \<and> list_all domain_cls d
      \<and> 2 \<le> length t \<and> list_all alpha_cls t \<and> (e = [] \<or> e = [10]))"
  unfolding email_pattern_def search_pattern_def
  by (simp only: in_bt append_Cons append_Nil) blast

lemma validate_email_iff:
  "validate_email (Str s) \<longleftrightarrow> matches_fully s \<or> (\<exists>m. s = m @ [10] \<and> matches_fully m)"
proof -
  have "validate_email (Str s) \<longleftrightarrow> (\<exists>r. r \<in> set (bt (length s) email_pattern s))"
    unfolding validate_email_def using re_match_Some [of email_pattern s] by simp
  also have "\<dots> \<longleftrightarrow> (\<exists>l d t e. s = l @ [64] @ d @ [46] @ t @ e
      \<and> l \<noteq> [] \<and> list_all local_cls l \<and> d \<noteq> [] \<and> list_all domain_cls d
      \<and> 2 \<le> length t \<and> list_all alpha_cls t \<and> (e = [] \<or> e = [10]))"
    by (simp only: bt_email_pattern simp_thms)
  also have "\<dots> \<longleftrightarrow> matches_fully s \<or> (\<exists>m. s = m @ [10] \<and> matches_fully m)"
  proof
    assume "\<exists>l d t e. s = l @ [64] @ d @ [46] @ t @ e
      \<and> l \<noteq> [] \<and> list_all local_cls l \<and> d \<noteq> [] \<and> list_all domain_cls d
      \<and> 2 \<le> length t \<and> list_all alpha_cls t \<and> (e = [] \<or> e = [10])"
    then obtain l d t e where s: "s = l @ [64] @ d @ [46] @ t @ e"
      and p: "l \<noteq> []" "list_all local_cls l" "d \<noteq> []" "list_all domain_cls d"
        "2 \<le> length t" "list_all alpha_cls t" and e: "e = [] \<or> e = [10]"
      by blast
    from p have m: "matches_fully (l @ [64] @ d @ [46] @ t)"
      unfolding matches_fully_def by blast
    from e show "matches_fully s \<or> (\<exists>m. s = m @ [10] \<and> matches_fully m)"
    proof
      assume "e = []"
      with s m show ?thesis by simp
    next
      assume "e = [10]"
      with s have "s = (l @ [64] @ d @ [46] @ t) @ [10]" by simp
      with m show ?thesis by blast
    qed
  next
    assume "matches_fully s \<or> (\<exists>m. s = m @ [10] \<and> matches_fully m)"
    then show "\<exists>l d t e. s = l @ [64] @ d @ [46] @ t @ e
      \<and> l \<noteq> [] \<and> list_all local_cls l \<and> d \<noteq> [] \<and> list_all domain_cls d
      \<and> 2 \<le> length t \<and> list_all alpha_cls t \<and> (e = [] \<or> e = [10])"
    proof
      assume "matches_fully s"
      then obtain l d t where "s = l @ [64] @ d @ [46] @ t @ []"
        "l \<noteq> []" "list_all local_cls l" "d \<noteq> []" "list_all domain_cls d"
        "2 \<le> length t" "list_all alpha_cls t"
        unfolding matches_fully_def by auto
      then show ?thesis by blast
    next
      assume "\<exists>m. s = m @ [10] \<and> matches_fully m"
      then obtain l d t where "s = l @ [64] @ d @ [46] @ t @ [10]"
        "l \<noteq> []" "list_all local_cls l" "d \<noteq> []" "list_all domain_cls d"
        "2 \<le> length t" "list_all alpha_cls t"
        unfolding matches_fully_def by auto
      then show ?thesis by blast
    qed
  qed
  finally show ?thesis .
qed

section \<open>Facts about accepted values\<close>

lemma split_chr_no_sep: "sep \<notin> set s \<Longrightarrow> split_chr sep s = [s]"
  by (induction s) auto

lemma split_chr_first: "sep \<notin> set l \<Longrightarrow> split_chr sep (l @ sep # r) = l # split_chr sep r"
  by (induction l) auto

lemma local_not_at: "list_all local_cls l \<Longrightarrow> 64 \<notin> set l"
  by (auto simp: list_all_iff local_cls_def az_def AZ_def digit_def)

lemma domain_not_at: "list_all domain_cls d \<Longrightarrow> 64 \<notin> set d"
  by (auto simp: list_all_iff domain_cls_def az_def AZ_def digit_def)

lemma alpha_domain: "list_all alpha_cls t \<Longrightarrow> list_all domain_cls t"
  by (auto simp: list_all_iff domain_cls_def alpha_cls_def)

lemma domain_kept: "list_all domain_cls d \<Longrightarrow> filter (\<lambda>c. \<not> not_filename_cls U c) d = d"
  by (induction d) (auto simp: not_filename_cls_def word_cls_def domain_cls_def az_def AZ_def digit_def)

lemma domain_filename: "list_all domain_cls d \<Longrightarrow> filter filename_cls d = d"
  by (induction d) (auto simp: filename_cls_def domain_cls_def)

lemma domain_filename_all: "list_all domain_cls d \<Longrightarrow> list_all filename_cls d"
  by (auto simp: list_all_iff filename_cls_def domain_cls_def)

text \<open>The shape of an accepted value and what \<open>extract_domain\<close> makes of it.\<close>

lemma valid_shape:
  assumes "validate_email (Str s)"
  obtains l d t e where "s = l @ 64 # (d @ 46 # t) @ e" "e = [] \<or> e = [10]"
    "l \<noteq> []" "list_all local_cls l" "d \<noteq> []" "list_all domain_cls (d @ 46 # t)"
    "2 \<le> length t" "list_all alpha_cls t"
proof -
  from assms have "matches_fully s \<or> (\<exists>m. s = m @ [10] \<and> matches_fully m)"
    by (simp add: validate_email_iff)
  then obtain l d t e where s: "s = l @ [64] @ d @ [46] @ t @ e" and e: "e = [] \<or> e = [10]"
    and p: "l \<noteq> []" "list_all local_cls l" "d \<noteq> []" "list_all domain_cls d"
      "2 \<le> length t" "list_all alpha_cls t"
    unfolding matches_fully_def by (elim disjE exE conjE) (simp_all, blast+)
  have "list_all domain_cls (d @ 46 # t)"
    using p alpha_domain [of t] by (simp add: domain_cls_def)
  with s e p that [of l d t e] show thesis by simp
qed

lemma extract_domain_shape:
  assumes "s = l @ 64 # r @ e" "e = [] \<or> e = [10]" "list_all local_cls l" "list_all domain_cls r"
  shows "extract_domain U (Str s) = r" and "stripped_domain s = r" and "count_list s 64 = 1"
    and "split_chr 64 s = [l, r @ e]"
proof -
  have l: "64 \<notin> set l" using assms(3) by (rule local_not_at)
  have r: "64 \<notin> set r" using assms(4) by (rule domain_not_at)
  have re: "64 \<notin> set (r @ e)" using r assms(2) by auto
  have sp: "split_chr 64 s = [l, r @ e]"
    using split_chr_first [OF l, of "r @ e"] split_chr_no_sep [OF re] assms(1) by simp
  have del: "filter (\<lambda>c. \<not> not_filename_cls U c) (r @ e) = r"
    using assms(2) domain_kept [OF assms(4), of U]
    by (auto simp: not_filename_cls_def word_cls_def az_def AZ_def digit_def)
  show "extract_domain U (Str s) = r"
    using sp del assms(1) by (simp add: extract_domain_def re_sub_delete_def)
  have "\<And>x. x \<in> set l \<Longrightarrow> x \<noteq> 64"
    using l by blast
  then have "dropWhile (\<lambda>c. c \<noteq> 64) (l @ 64 # r @ e) = dropWhile (\<lambda>c. c \<noteq> 64) (64 # r @ e)"
    by (rule dropWhile_append2)
  then have "dropWhile (\<lambda>c. c \<noteq> 64) s = 64 # r @ e"
    using assms(1) by simp
  moreover have "filter filename_cls (r @ e) = r"
    using assms(2) domain_filename [OF assms(4)]
    by (auto simp: filename_cls_def az_def AZ_def digit_def)
  ultimately show "stripped_domain s = r"
    by (simp add: stripped_domain_def after_first_at_def)
  show "count_list s 64 = 1"
    using l re assms(1) count_list_0_iff [of l 64] count_list_0_iff [of "r @ e" 64]
    by (simp del: count_list_0_iff)  show "split_chr 64 s = [l, r @ e]"
    by (rule sp)
qed

lemma bool_index_map: "bool_index (map f xs) xs = filter f xs"
  by (induction xs) (auto simp: bool_index_def)

lemma phase1_filter: "phase1 rs = filter logged_in rs"
  unfolding phase1_def logged_in_def by (rule bool_index_map)

section \<open>Facts about the pipeline\<close>

lemma validate_loop_eq:
  "validate_loop es (v, n, ev) =
     (v @ filter validate_email es,
      n + length (filter (\<lambda>e. \<not> validate_email e) es),
      ev @ map (\<lambda>e. Log (Invalid_skipped e)) (filter (\<lambda>e. \<not> validate_email e) es))"
  by (induction es arbitrary: v n ev) simp_all

lemma validate_csv_format_Inr:
  "(\<exists>b. validate_csv_format df = Inr b) \<longleftrightarrow> set required_columns \<subseteq> set (columns df)"
  by (auto simp: validate_csv_format_def Let_def filter_empty_conv)

lemma validate_csv_format_Inl:
  "(\<exists>e. validate_csv_format df = Inl e) \<longleftrightarrow> \<not> set required_columns \<subseteq> set (columns df)"
  by (auto simp: validate_csv_format_def Let_def filter_empty_conv)

lemma excluded_empty: "\<not> excluded U {} r"
  by (simp add: excluded_def split: cell.splits)

lemma phase2_snd:
  "snd (phase2 U env tx dt rs) =
     (if exclusion_set U env tx \<noteq> {} \<and> dt \<noteq> ObjectDtype then Inl AttributeError
      else Inr (filter (\<lambda>r. \<not> excluded U (exclusion_set U env tx) r) rs))"
proof -
  have m: "bool_index (map (\<lambda>r. \<not> (case r email_column of Str s \<Rightarrow> str_lower U s \<in> E | NonStr \<Rightarrow> False)) rs) rs
           = filter (\<lambda>r. \<not> excluded U E r) rs" for E
    using bool_index_map [of "\<lambda>r. \<not> excluded U E r" rs]
    by (simp add: excluded_def)
  show ?thesis
    by (auto simp: phase2_def exclusion_set_def str_lower_isin_def o_def m excluded_empty Let_def
        split: option.splits prod.splits)
qed

lemma phase2_no_notice: "e \<in> set (fst (phase2 U env tx dt rs)) \<Longrightarrow> \<not> is_notice e"
  by (auto simp: phase2_def str_lower_isin_def load_exclusion_emails_def Let_def is_notice_def
      split: option.splits prod.splits if_splits sum.splits)

lemma survivors_fusion:
  "filter validate_email (map (\<lambda>r. r email_column)
      (filter (\<lambda>r. \<not> excluded U (exclusion_set U env tx) r) (filter logged_in (rows df))))
   = map (\<lambda>r. r email_column) (survivors U env tx df)"
  unfolding survivors_def filter_map filter_filter o_def
  by (rule arg_cong [where f = "map (\<lambda>r. r email_column)"], rule filter_cong)
     (auto simp: survives_def)

lemma process_csv_char:
  "snd (process_csv U env csv tx) = process_outcome U env csv tx
   \<and> ((\<exists>e \<in> set (fst (process_csv U env csv tx)). is_notice e)
        \<longleftrightarrow> process_outcome U env csv tx = None)"
proof (cases "read_csv env csv")
  case (Inl e)
  then show ?thesis
    by (simp add: process_csv_def process_csv_try_def process_outcome_def is_notice_def)
next
  case (Inr df)
  show ?thesis
  proof (cases "set required_columns \<subseteq> set (columns df)")
    case False
    then obtain e where "validate_csv_format df = Inl e"
      using validate_csv_format_Inl [of df] by blast
    with Inr False show ?thesis
      by (simp add: process_csv_def process_csv_try_def process_outcome_def is_notice_def)
  next
    case True
    then obtain b where b: "validate_csv_format df = Inr b"
      using validate_csv_format_Inr [of df] by blast
    obtain ev3 res where p2: "phase2 U env tx (dtypes df email_column) (filter logged_in (rows df)) = (ev3, res)"
      by fastforce
    have res: "res = (if exclusion_set U env tx \<noteq> {} \<and> dtypes df email_column \<noteq> ObjectDtype
                      then Inl AttributeError
                      else Inr (filter (\<lambda>r. \<not> excluded U (exclusion_set U env tx) r) (filter logged_in (rows df))))"
      using phase2_snd [of U env tx "dtypes df email_column" "filter logged_in (rows df)"] p2 by simp
    have ev3: "\<And>e. e \<in> set ev3 \<Longrightarrow> \<not> is_notice e"
      using phase2_no_notice [of _ U env tx "dtypes df email_column" "filter logged_in (rows df)"] p2 by simp
    show ?thesis
    proof (cases "filter logged_in (rows df) = []")
      case True
      with Inr b \<open>set required_columns \<subseteq> set (columns df)\<close> show ?thesis
        by (simp add: process_csv_def process_csv_try_def process_outcome_def is_notice_def
            phase1_filter Let_def)
    next
      case ne: False
      show ?thesis
      proof (cases "exclusion_set U env tx \<noteq> {} \<and> dtypes df email_column \<noteq> ObjectDtype")
        case True
        with res have "res = Inl AttributeError" by simp
        with Inr b ne True p2 \<open>set required_columns \<subseteq> set (columns df)\<close> show ?thesis
          by (simp add: process_csv_def process_csv_try_def process_outcome_def is_notice_def
            phase1_filter Let_def)
      next
        case False
        with res have r: "res = Inr (filter (\<lambda>r. \<not> excluded U (exclusion_set U env tx) r) (filter logged_in (rows df)))"
          by simp
        have fu: "filter validate_email (map (\<lambda>r. r email_column)
              (filter (\<lambda>r. \<not> excluded U (exclusion_set U env tx) r) (filter logged_in (rows df))))
            = map (\<lambda>r. r email_column) (survivors U env tx df)"
          by (rule survivors_fusion)
        show ?thesis
        proof (cases "map (\<lambda>r. r email_column) (survivors U env tx df)")
          case Nil
          with Inr b ne False p2 r fu \<open>set required_columns \<subseteq> set (columns df)\<close> show ?thesis
            by (simp add: process_csv_def process_csv_try_def process_outcome_def is_notice_def
              phase1_filter Let_def validate_loop_eq)
        next
          case (Cons first rest)
          have "\<not> (\<exists>e \<in> set (fst (process_csv U env csv tx)). is_notice e)"
            using Inr b ne False p2 r fu Cons ev3
            by (auto simp: process_csv_def process_csv_try_def is_notice_def
              phase1_filter Let_def validate_loop_eq)
          moreover have "snd (process_csv U env csv tx) = process_outcome U env csv tx"
            using Inr b ne False p2 r fu Cons \<open>set required_columns \<subseteq> set (columns df)\<close>
            by (simp add: process_csv_def process_csv_try_def process_outcome_def
              phase1_filter Let_def validate_loop_eq)
          moreover have "process_outcome U env csv tx \<noteq> None"
            using Inr ne False Cons \<open>set required_columns \<subseteq> set (columns df)\<close>
            by (simp add: process_outcome_def)
          ultimately show ?thesis by simp
        qed
      qed
    qed
  qed
qed

lemma enumerate_const_rows:
  "map (\<lambda>(i, r). [r c]) (enumerate n (map (\<lambda>e c. e) emails)) = map (\<lambda>e. [e]) emails"
  by (induction emails arbitrary: n) simp_all

lemma render_output_frame: "render False (output_frame emails) = output_table emails"
  using enumerate_const_rows [of "py ''primaryEmail''" 0 emails]
  by (simp add: render_def output_frame_def output_table_def)

lemma save_output_eq:
  "save_output env emails domain csv files =
     (if can_write env (output_path csv domain)
      then ([Log (Output_saved (output_path csv domain)), Log (Total_emails (length emails)),
             ShowInfo (domain @ py ''-to-delete.csv'') (length emails)],
            Some (output_path csv domain), files(output_path csv domain \<mapsto> output_table emails))
      else ([ShowError Saving_output WriteError], None, files))"
  by (simp add: save_output_def to_csv_def output_path_def render_output_frame Let_def)

lemma main_snd:
  "snd (main U env csv tx files) =
     (if csv = [] then files
      else case process_outcome U env csv tx of
             None \<Rightarrow> files
           | Some (emails, domain, p) \<Rightarrow>
               if can_write env (output_path p domain)
               then files(output_path p domain \<mapsto> output_table emails) else files)"
proof -
  obtain ev r where p: "process_csv U env csv tx = (ev, r)" by fastforce
  with process_csv_char [of U env csv tx] have r: "r = process_outcome U env csv tx" by simp
  show ?thesis
    using p r by (auto simp: main_def save_output_eq Let_def split: option.splits prod.splits)
qed

lemma main_notice:
  assumes "csv \<noteq> []"
  shows "(\<exists>e \<in> set (fst (main U env csv tx files)). is_notice e) \<longleftrightarrow>
     (case process_outcome U env csv tx of
        None \<Rightarrow> True
      | Some (emails, domain, p) \<Rightarrow> \<not> can_write env (output_path p domain))"
proof -
  obtain ev r where p: "process_csv U env csv tx = (ev, r)" by fastforce
  with process_csv_char [of U env csv tx] have r: "r = process_outcome U env csv tx"
    and n: "(\<exists>e \<in> set ev. is_notice e) \<longleftrightarrow> process_outcome U env csv tx = None"
    by simp_all
  show ?thesis
  proof (cases "process_outcome U env csv tx")
    case None
    with n obtain e where "e \<in> set ev" "is_notice e" by blast
    with p r None assms show ?thesis
      by (auto simp: main_def Let_def)
  next
    case (Some a)
    obtain emails domain q where a: "a = (emails, domain, q)" by (cases a) auto
    from n Some have "\<forall>e \<in> set ev. \<not> is_notice e" by simp
    with p r Some a assms show ?thesis
      by (auto simp: main_def save_output_eq Let_def is_notice_def split: option.splits)
  qed
qed

lemma unknown_no_dot: "46 \<notin> set unknown"
  by (simp add: unknown_def py_def)

lemma survivors_valid: "r \<in> set (survivors U env tx df) \<Longrightarrow> validate_email (r email_column)"
  by (simp add: survivors_def survives_def)

lemma process_outcome_Some:
  assumes "process_outcome U env csv tx = Some (emails, domain, p)"
  obtains df first rest where "read_csv env csv = Inr df"
    "set required_columns \<subseteq> set (columns df)"
    "emails = map (\<lambda>r. r email_column) (survivors U env tx df)"
    "emails = first # rest" "validate_email first"
    "domain = extract_domain U first" "p = csv"
    "exclusion_set U env tx = {} \<or> dtypes df email_column = ObjectDtype"
proof (cases "read_csv env csv")
  case (Inl e)
  with assms show thesis by (simp add: process_outcome_def)
next
  case (Inr df)
  from assms Inr have c: "set required_columns \<subseteq> set (columns df)"
    and d: "exclusion_set U env tx = {} \<or> dtypes df email_column = ObjectDtype"
    by (auto simp: process_outcome_def split: if_splits)
  show thesis
  proof (cases "map (\<lambda>r. r email_column) (survivors U env tx df)")
    case Nil
    with assms Inr show thesis by (simp add: process_outcome_def split: if_splits)
  next
    case (Cons first rest)
    with assms Inr have e: "emails = first # rest" "domain = extract_domain U first" "p = csv"
      by (auto simp: process_outcome_def split: if_splits)
    from Cons have "first \<in> (\<lambda>r. r email_column) ` set (survivors U env tx df)"
      by (metis list.set_intros(1) set_map)
    then have "validate_email first" using survivors_valid by blast
    with Inr c d e Cons that show thesis by simp
  qed
qed

lemma main_written:
  assumes "snd (main U env csv tx files) p = Some t" "files p \<noteq> Some t"
  obtains emails domain where "csv \<noteq> []" "process_outcome U env csv tx = Some (emails, domain, csv)"
    "can_write env (output_path csv domain)" "p = output_path csv domain" "t = output_table emails"
proof (cases "csv = [] \<or> process_outcome U env csv tx = None")
  case True
  with assms have False by (auto simp: main_snd split: if_splits)
  then show thesis ..
next
  case False
  then obtain emails domain q where o: "process_outcome U env csv tx = Some (emails, domain, q)"
    by auto
  then have q: "q = csv" by (rule process_outcome_Some)
  from assms o False have w: "can_write env (output_path q domain)"
    by (auto simp: main_snd split: if_splits)
  with assms o False have "p = output_path q domain" "t = output_table emails"
    by (auto simp: main_snd split: if_splits)
  with o q w False that show thesis by simp
qed

lemma run1: "snd (main ascii_only (env_of [row_a, row_b, row_bad] (Inr []) True) in_csv None Map.empty) out_x = Some table_b"
  by code_simp

lemma run1_read: "read_csv (env_of [row_a, row_b, row_bad] (Inr []) True) in_csv = Inr (mk_frame [row_a, row_b, row_bad])"
  by (simp add: env_of_def)

lemma run2: "snd (main ascii_only env2 in_csv (Some ex_txt) Map.empty) out_y = Some table_d"
  by code_simp

lemma run2_read: "read_csv env2 in_csv = Inr (mk_frame [row_a, row_b, row_d])"
  by (simp add: env2_def env_of_def)

lemma excl2: "exclusion_set ascii_only env2 (Some ex_txt) = {py ''b@x.com''}"
  by code_simp

lemma row_b_email: "row_b email_column = Str (py ''b@x.com'')"
  by (simp add: row_b_def mk_row_def)

lemma row_d_email: "row_d email_column = Str (py ''d@y.org'')"
  by (simp add: row_d_def mk_row_def)

lemma main_events_sub:
  "csv \<noteq> [] \<Longrightarrow> set (fst (process_csv U env csv tx)) \<subseteq> set (fst (main U env csv tx files))"
  by (cases "process_csv U env csv tx")
     (auto simp: main_def Let_def split: option.splits prod.splits)

lemma phase2_cases:
  obtains ev3 where "exclusion_set U env tx \<noteq> {}" "dt \<noteq> ObjectDtype"
      "phase2 U env tx dt rs = (ev3, Inl AttributeError)"
  | ev3 where "exclusion_set U env tx = {} \<or> dt = ObjectDtype"
      "phase2 U env tx dt rs = (ev3, Inr (filter (\<lambda>r. \<not> excluded U (exclusion_set U env tx) r) rs))"
proof -
  obtain ev3 res where p: "phase2 U env tx dt rs = (ev3, res)" by fastforce
  with phase2_snd [of U env tx dt rs] that p show thesis
    by (cases "exclusion_set U env tx \<noteq> {} \<and> dt \<noteq> ObjectDtype") auto
qed

lemma process_csv_schema_event:
  assumes "read_csv env csv = Inr df" "\<not> set required_columns \<subseteq> set (columns df)"
  shows "ShowError Processing_csv (ValueError (filter (\<lambda>col. col \<notin> set (columns df)) required_columns))
           \<in> set (fst (process_csv U env csv tx))"
proof -
  from assms(2) have "validate_csv_format df
      = Inl (ValueError (filter (\<lambda>col. col \<notin> set (columns df)) required_columns))"
    by (auto simp: validate_csv_format_def Let_def filter_empty_conv)
  with assms(1) show ?thesis
    by (simp add: process_csv_def process_csv_try_def)
qed

lemma process_csv_no_data_event:
  assumes "read_csv env csv = Inr df" "set required_columns \<subseteq> set (columns df)"
    "phase1 (rows df) = []"
  shows "ShowWarning NoData \<in> set (fst (process_csv U env csv tx))"
proof -
  from assms(2) obtain b where "validate_csv_format df = Inr b"
    using validate_csv_format_Inr [of df] by blast
  with assms(1,3) show ?thesis
    by (simp add: process_csv_def process_csv_try_def Let_def)
qed

lemma process_csv_after_phase1_event:
  assumes "read_csv env csv = Inr df" "set required_columns \<subseteq> set (columns df)"
    "phase1 (rows df) \<noteq> []" "survivors U env tx df = []"
  shows "ShowWarning NoValidEmails \<in> set (fst (process_csv U env csv tx))
       \<or> ShowError Processing_csv AttributeError \<in> set (fst (process_csv U env csv tx))"
proof -
  from assms(2) obtain b where b: "validate_csv_format df = Inr b"
    using validate_csv_format_Inr [of df] by blast
  have fu: "filter validate_email (map (\<lambda>r. r email_column)
        (filter (\<lambda>r. \<not> excluded U (exclusion_set U env tx) r) (filter logged_in (rows df)))) = []"
    using survivors_fusion [of U env tx df] assms(4) by simp
  show ?thesis
  proof (rule phase2_cases [of U env tx "dtypes df email_column" "filter logged_in (rows df)"])
    fix ev3
    assume "phase2 U env tx (dtypes df email_column) (filter logged_in (rows df)) = (ev3, Inl AttributeError)"
    with assms(1,3) b show ?thesis
      by (simp add: process_csv_def process_csv_try_def Let_def phase1_filter)
  next
    fix ev3
    assume "phase2 U env tx (dtypes df email_column) (filter logged_in (rows df))
      = (ev3, Inr (filter (\<lambda>r. \<not> excluded U (exclusion_set U env tx) r) (filter logged_in (rows df))))"
    with assms(1,3) b fu show ?thesis
      by (simp add: process_csv_def process_csv_try_def Let_def phase1_filter validate_loop_eq)
  qed
qed

lemma process_csv_multiple_event:
  assumes "process_outcome U env csv tx = Some (emails, domain, p)"
    and "1 < card (set (map (extract_domain U) emails))"
  shows "Log (Multiple_domains (set (map (extract_domain U) emails))) \<in> set (fst (process_csv U env csv tx))"
proof -
  from assms(1) obtain df first rest where df: "read_csv env csv = Inr df"
    and c: "set required_columns \<subseteq> set (columns df)"
    and e: "emails = map (\<lambda>r. r email_column) (survivors U env tx df)" "emails = first # rest"
    and d: "exclusion_set U env tx = {} \<or> dtypes df email_column = ObjectDtype"
    by (rule process_outcome_Some)
  from c obtain b where b: "validate_csv_format df = Inr b"
    using validate_csv_format_Inr [of df] by blast
  from e obtain z where "z \<in> set (survivors U env tx df)"
    by (cases "survivors U env tx df") auto
  then have "z \<in> set (rows df)" "logged_in z"
    by (auto simp: survivors_def survives_def)
  then have ne: "filter logged_in (rows df) \<noteq> []"
    by (auto simp: filter_empty_conv)
  have fu: "filter validate_email (map (\<lambda>r. r email_column)
        (filter (\<lambda>r. \<not> excluded U (exclusion_set U env tx) r) (filter logged_in (rows df)))) = first # rest"
    using survivors_fusion [of U env tx df] e by simp
  show ?thesis
  proof (rule phase2_cases [of U env tx "dtypes df email_column" "filter logged_in (rows df)"])
    fix ev3
    assume "exclusion_set U env tx \<noteq> {}" "dtypes df email_column \<noteq> ObjectDtype"
    with d show ?thesis by simp
  next
    fix ev3
    assume "phase2 U env tx (dtypes df email_column) (filter logged_in (rows df))
      = (ev3, Inr (filter (\<lambda>r. \<not> excluded U (exclusion_set U env tx) r) (filter logged_in (rows df))))"
    with df b ne fu assms(2) e(2) show ?thesis
      by (simp add: process_csv_def process_csv_try_def Let_def phase1_filter validate_loop_eq)
  qed
qed

lemma process_outcome_None_main:
  "process_outcome U env csv tx = None \<Longrightarrow> snd (main U env csv tx files) = files"
  by (simp add: main_snd)

lemma in_csv_nonempty: "in_csv \<noteq> []"
  by (simp add: in_csv_def py_def)

lemma run_two:
  "snd (process_csv ascii_only env_two in_csv None)
     = Some ([Str (py ''b@x.com''), Str (py ''d@y.org'')], py ''x.com'', in_csv)"
  by code_simp

lemma two_domains:
  "1 < card (set (map (extract_domain ascii_only) [Str (py ''b@x.com''), Str (py ''d@y.org'')]))"
  by code_simp

lemma matches_fully_last: "matches_fully s \<Longrightarrow> alpha_cls (last s)"
proof -
  assume "matches_fully s"
  then obtain l d t where s: "s = l @ [64] @ d @ [46] @ t" and t: "2 \<le> length t" "list_all alpha_cls t"
    unfolding matches_fully_def by blast
  from t(1) have "t \<noteq> []" by auto
  with s have "last s = last t" by simp
  with t(2) \<open>t \<noteq> []\<close> show ?thesis by (simp add: list_all_iff)
qed

lemma process_outcome_cong:
  "exclusion_set U env tx = exclusion_set U env tx' \<Longrightarrow>
     process_outcome U env csv tx = process_outcome U env csv tx'"
  by (cases "read_csv env csv") (simp_all add: process_outcome_def survivors_def)

lemma run_unwritable:
  "snd (process_csv ascii_only env_unwritable in_csv None) = Some ([Str (py ''b@x.com'')], py ''x.com'', in_csv)"
  by code_simp

section \<open>Facts about the search\<close>

lemma takes_append: "list_all p u \<Longrightarrow> \<exists>X. takes p (u @ w) = takes p w @ X"
  by (induction u) auto

lemma takes_all: "list_all p t \<Longrightarrow> \<exists>rest. takes p t = [] # rest \<and> length (takes p t) = Suc (length t)"
  by (induction t) auto

lemma plus_lit:
  assumes "list_all p u" "u \<noteq> []" "\<not> p c"
  shows "bt n (Plus p # Lit c # as) (u @ c # v) = bt n as v"
proof -
  have G: "list_all p w \<Longrightarrow> concat (map (bt n (Lit c # as)) (takes p (w @ c # v))) = bt n as v" for w
  proof (induction w)
    case Nil
    show ?case using assms(3) by simp
  next
    case (Cons a w)
    then have "a \<noteq> c" using assms(3) by auto
    with Cons show ?case by simp
  qed
  from assms(2) obtain a w where u: "u = a # w" by (cases u) auto
  with assms(1) have "p a" "list_all p w" by simp_all
  then show ?thesis using G [of w] u by simp
qed

lemma domain_tail:
  assumes "list_all domain_cls d" "d \<noteq> []" "list_all alpha_cls t" "2 \<le> length t"
  shows "\<exists>rest. bt n [Plus domain_cls, Lit 46, AtLeast 2 alpha_cls] (d @ 46 # t) = [] # rest"
proof -
  define f where "f = bt n [Lit 46, AtLeast 2 alpha_cls]"
  have f_alpha: "f (a # w) = []" if "alpha_cls a" for a w
    using that by (auto simp: f_def alpha_cls_def az_def AZ_def)
  have f_nil: "f [] = []" by (simp add: f_def)
  have c1: "list_all alpha_cls w \<Longrightarrow> concat (map f (takes domain_cls w)) = []" for w
  proof (induction w)
    case Nil
    show ?case by (simp add: f_nil)
  next
    case (Cons a w)
    then have "alpha_cls a" by simp
    then have "domain_cls a" by (auto simp: alpha_cls_def domain_cls_def)
    with Cons \<open>alpha_cls a\<close> show ?case by (simp add: f_alpha)
  qed
  from takes_all [OF assms(3)] obtain rest where l: "takes alpha_cls t = [] # rest"
    "length (takes alpha_cls t) = Suc (length t)" by blast
  from assms(4) obtain k where k: "length t = Suc (Suc k)"
    by (metis Suc_le_D numeral_2_eq_2 Suc_le_mono)
  have c2: "\<exists>r. f (46 # t) = [] # r"
    using l k by (simp add: f_def Let_def)
  have d46: "domain_cls 46" by (simp add: domain_cls_def)
  from assms(2) obtain a d' where d: "d = a # d'" by (cases d) auto
  with assms(1) have a: "domain_cls a" "list_all domain_cls d'" by simp_all
  from takes_append [OF a(2), of "46 # t"] obtain X
    where X: "takes domain_cls (d' @ 46 # t) = takes domain_cls (46 # t) @ X" by blast
  have "bt n [Plus domain_cls, Lit 46, AtLeast 2 alpha_cls] (d @ 46 # t)
      = concat (map f (takes domain_cls (d' @ 46 # t)))"
    using d a(1) by (simp add: f_def)
  also have "\<dots> = concat (map f (takes domain_cls t)) @ f (46 # t) @ concat (map f X)"
    using X d46 by simp
  also have "\<dots> = f (46 # t) @ concat (map f X)"
    using c1 [OF assms(3)] by simp
  finally show ?thesis using c2 by auto
qed

lemma search_full: "matches_fully s \<Longrightarrow> re_search search_pattern s = Some s"
proof -
  assume "matches_fully s"
  then obtain l d t where s: "s = l @ 64 # d @ 46 # t"
    and p: "l \<noteq> []" "list_all local_cls l" "d \<noteq> []" "list_all domain_cls d"
      "2 \<le> length t" "list_all alpha_cls t"
    unfolding matches_fully_def by auto
  have n64: "\<not> local_cls 64" by (simp add: local_cls_def az_def AZ_def digit_def)
  have "bt (length s) search_pattern s
      = bt (length s) [Plus domain_cls, Lit 46, AtLeast 2 alpha_cls] (d @ 46 # t)"
    unfolding search_pattern_def s by (rule plus_lit [OF p(2) p(1) n64])
  with domain_tail [OF p(4) p(3) p(6) p(5), of "length s"] obtain rest
    where b: "bt (length s) search_pattern s = [] # rest" by auto
  from p(1) s obtain c cs where c: "s = c # cs" by (cases l) auto
  with b show ?thesis by (simp add: re_search_def)
qed

lemma search_at_Some:
  "search_at n pat s = Some m \<Longrightarrow>
     \<exists>pre v r. s = pre @ v \<and> r \<in> set (bt n pat v) \<and> m = take (length v - length r) v"
proof (induction s)
  case Nil
  then show ?case by (cases "bt n pat []") auto
next
  case (Cons c cs)
  show ?case
  proof (cases "bt n pat (c # cs)")
    case Nil
    with Cons.prems have "search_at n pat cs = Some m" by simp
    from Cons.IH [OF this] obtain pre v r where "cs = pre @ v" "r \<in> set (bt n pat v)"
      "m = take (length v - length r) v" by blast
    then have "c # cs = (c # pre) @ v" by simp
    with \<open>r \<in> set (bt n pat v)\<close> \<open>m = take (length v - length r) v\<close> show ?thesis by blast
  next
    case (Cons r rs)
    with Cons.prems have "m = take (length (c # cs) - length r) (c # cs)" by simp
    moreover have "r \<in> set (bt n pat (c # cs))" using Cons by simp
    moreover have "c # cs = [] @ (c # cs)" by simp
    ultimately show ?thesis by blast
  qed
qed

lemma search_at_None:
  "search_at n pat s = None \<Longrightarrow> s = pre @ v \<Longrightarrow> bt n pat v = []"
proof (induction s arbitrary: pre)
  case Nil
  then show ?case by (cases "bt n pat []") auto
next
  case (Cons c cs)
  from Cons.prems(1) have b: "bt n pat (c # cs) = []" and r: "search_at n pat cs = None"
    by (cases "bt n pat (c # cs)"; simp)+
  show ?case
  proof (cases pre)
    case Nil
    with Cons.prems(2) b show ?thesis by simp
  next
    case (Cons a pre')
    with Cons.prems(2) have "cs = pre' @ v" by simp
    from Cons.IH [OF r this] show ?thesis .
  qed
qed

lemma in_bt_search_pattern:
  "r \<in> set (bt n search_pattern v) \<longleftrightarrow> (\<exists>m. v = m @ r \<and> matches_fully m)"
proof -
  have "r \<in> set (bt n search_pattern v) \<longleftrightarrow> (\<exists>l d t. v = l @ [64] @ d @ [46] @ t @ r
      \<and> l \<noteq> [] \<and> list_all local_cls l \<and> d \<noteq> [] \<and> list_all domain_cls d
      \<and> 2 \<le> length t \<and> list_all alpha_cls t)"
    unfolding search_pattern_def
    by (simp only: in_bt append_Cons append_Nil) blast
  also have "\<dots> \<longleftrightarrow> (\<exists>m. v = m @ r \<and> matches_fully m)"
    unfolding matches_fully_def by (auto; force)
  finally show ?thesis .
qed

lemma search_sound:
  assumes "re_search search_pattern s = Some m"
  shows "matches_fully m" and "\<exists>pre post. s = pre @ m @ post"
proof -
  from assms obtain pre v r where s: "s = pre @ v" and r: "r \<in> set (bt (length s) search_pattern v)"
    and m: "m = take (length v - length r) v"
    unfolding re_search_def by (blast dest: search_at_Some)
  from r obtain m' where v: "v = m' @ r" and f: "matches_fully m'"
    using in_bt_search_pattern by blast
  from m v have "m = m'" by simp
  with f show "matches_fully m" by simp
  from s v \<open>m = m'\<close> show "\<exists>pre post. s = pre @ m @ post" by blast
qed

lemma search_complete:
  assumes "s = pre @ m @ post" "matches_fully m"
  shows "re_search search_pattern s \<noteq> None"
proof
  assume "re_search search_pattern s = None"
  then have "bt (length s) search_pattern (m @ post) = []"
    unfolding re_search_def using assms(1) by (rule search_at_None)
  moreover have "post \<in> set (bt (length s) search_pattern (m @ post))"
    using in_bt_search_pattern assms(2) by blast
  ultimately show False by simp
qed

lemma strip_last: "py_strip s \<noteq> [] \<Longrightarrow> \<not> isspace (last (py_strip s))"
proof -
  assume a: "py_strip s \<noteq> []"
  let ?ys = "dropWhile isspace (rev (dropWhile isspace s))"
  from a have ne: "?ys \<noteq> []" by (simp add: py_strip_def)
  then have "\<not> isspace (hd ?ys)" by (rule hd_dropWhile)
  moreover have "last (py_strip s) = hd ?ys"
    using ne by (simp add: py_strip_def last_rev)
  ultimately show ?thesis by simp
qed

lemma valid_stripped_full:
  assumes "validate_email (Str (py_strip raw))"
  shows "matches_fully (py_strip raw)"
proof -
  from assms have "matches_fully (py_strip raw) \<or> (\<exists>m. py_strip raw = m @ [10] \<and> matches_fully m)"
    by (simp add: validate_email_iff)
  moreover have "\<not> (\<exists>m. py_strip raw = m @ [10])"
  proof
    assume "\<exists>m. py_strip raw = m @ [10]"
    then obtain m where m: "py_strip raw = m @ [10]" by blast
    then have "py_strip raw \<noteq> []" "last (py_strip raw) = 10" by simp_all
    with strip_last [of raw] show False by (simp add: isspace_def)
  qed
  ultimately show ?thesis by blast
qed

lemma search_None_invalid:
  assumes "re_search search_pattern s = None"
  shows "\<not> validate_email (Str s)"
proof
  assume "validate_email (Str s)"
  then have "matches_fully s \<or> (\<exists>m. s = m @ [10] \<and> matches_fully m)"
    by (simp add: validate_email_iff)
  then obtain m post where "s = [] @ m @ post" "matches_fully m" by auto
  then have "re_search search_pattern s \<noteq> None" by (rule search_complete)
  with assms show False by simp
qed

lemma search_empty: "re_search search_pattern [] = None"
  by (simp add: re_search_def search_pattern_def)

lemma line_emails_eq:
  "line_emails U raw =
     (case re_search search_pattern (py_strip raw) of None \<Rightarrow> {} | Some m \<Rightarrow> {str_lower U m})"
proof (cases "re_search search_pattern (py_strip raw)")
  case None
  with search_None_invalid [OF None] show ?thesis
    by (simp add: line_emails_def Let_def)
next
  case (Some m)
  then have "py_strip raw \<noteq> []" using search_empty by auto
  with Some show ?thesis by (simp add: line_emails_def Let_def)
qed

lemma add_lines_step: "add_lines U (raw # rest) acc = add_lines U rest (acc \<union> line_emails U raw)"
  by (simp add: line_emails_def Let_def split: option.splits)

lemma add_lines_union: "add_lines U lines acc = acc \<union> (\<Union>raw \<in> set lines. line_emails U raw)"
proof (induction lines arbitrary: acc)
  case Nil
  show ?case by simp
next
  case (Cons raw rest)
  have "add_lines U (raw # rest) acc = add_lines U rest (acc \<union> line_emails U raw)"
    by (rule add_lines_step)
  also have "\<dots> = (acc \<union> line_emails U raw) \<union> (\<Union>r \<in> set rest. line_emails U r)"
    by (rule Cons.IH)
  finally show ?case by auto
qed

lemma search_contact: "re_search search_pattern (py_strip contact_line) = Some (py ''C@x.com'')"
  by code_simp

lemma valid_bare: "validate_email (Str (py_strip bare_line))"
  by code_simp

lemma lower_bare: "str_lower ascii_only (py_strip bare_line) = py ''c@x.com''"
  by code_simp

lemma lower_contact: "str_lower ascii_only (py ''C@x.com'') = py ''c@x.com''"
  by code_simp

section \<open>The login-status filter\<close>

text \<open>
  Claim C1. A row survives phase 1 exactly when its field \<open>Last Sign In [READ ONLY]\<close> is not
  the string \<open>Never logged in\<close>, compared exactly; the rows kept stay in their order.
\<close>

theorem phase1_login_status:
  "phase1 rs = filter (\<lambda>r. r status_column \<noteq> Str never_logged_in) rs
   \<and> (r \<in> set (phase1 rs) \<longleftrightarrow> r \<in> set rs \<and> r status_column \<noteq> Str never_logged_in)"
  by (simp add: phase1_def bool_index_map)

theorem phase1_login_status_witness:
  "map (\<lambda>r. r email_column) (phase1 [row_a, row_b, row_bad, row_c])
     = [Str (py ''b@x.com''), Str (py ''bad@@x''), Str (py ''C@x.com'')]"
  using phase1_login_status [of "[row_a, row_b, row_bad, row_c]" row_a]
  by (simp add: row_a_def row_b_def row_bad_def row_c_def mk_row_def email_column_def
      status_column_def never_logged_in_def py_def)

section \<open>Accepted values and the name of the output\<close>

text \<open>
  Claim C10. A value that \<open>validate_email\<close> accepts is a string with exactly one \<open>@\<close>; on it
  \<open>extract_domain\<close> takes the branch of \<open>split\<close> and \<open>re.sub\<close>, not the fallback, and
  returns a string that is not empty, has only characters of \<open>[A-Za-z0-9._-]\<close> and is not
  \<open>unknown\<close>. No run writes a file named \<open>unknown-to-delete.csv\<close>.
\<close>

theorem valid_email_domain:
  "(validate_email v \<longrightarrow>
      (\<exists>s l d. v = Str s \<and> count_list s 64 = 1 \<and> 64 \<in> set s \<and> split_chr 64 s = [l, d]
         \<and> extract_domain U v = re_sub_delete (not_filename_cls U) d
         \<and> extract_domain U v \<noteq> [] \<and> list_all filename_cls (extract_domain U v)
         \<and> extract_domain U v \<noteq> unknown))
   \<and> snd (main U env csv tx files) (Sibling q (py ''unknown-to-delete.csv''))
       = files (Sibling q (py ''unknown-to-delete.csv''))"
proof
  show "validate_email v \<longrightarrow>
      (\<exists>s l d. v = Str s \<and> count_list s 64 = 1 \<and> 64 \<in> set s \<and> split_chr 64 s = [l, d]
         \<and> extract_domain U v = re_sub_delete (not_filename_cls U) d
         \<and> extract_domain U v \<noteq> [] \<and> list_all filename_cls (extract_domain U v)
         \<and> extract_domain U v \<noteq> unknown)"
  proof
    assume v: "validate_email v"
    then obtain s where s: "v = Str s"
      by (cases v) (simp_all add: validate_email_def)
    from v s have "validate_email (Str s)" by simp
    then obtain l d t e where sh0: "s = l @ 64 # (d @ 46 # t) @ e" "e = [] \<or> e = [10]"
      "l \<noteq> []" "list_all local_cls l" "d \<noteq> []" "list_all domain_cls (d @ 46 # t)"
      "2 \<le> length t" "list_all alpha_cls t"
      by (rule valid_shape)
    note sh = sh0(1,2,4,6)
    note f = extract_domain_shape [OF sh]
    have dom: "extract_domain U v = d @ 46 # t" using f(1) [where U = U] s by simp
    have "64 \<in> set s" using sh(1) by simp
    moreover have "extract_domain U v = re_sub_delete (not_filename_cls U) ((d @ 46 # t) @ e)"
      using \<open>64 \<in> set s\<close> f(4) s by (simp add: extract_domain_def)
    moreover have "list_all filename_cls (extract_domain U v)"
      using dom domain_filename_all [OF sh(4)] by simp
    moreover have "extract_domain U v \<noteq> unknown"
    proof
      assume "extract_domain U v = unknown"
      with dom have "46 \<in> set unknown" by (metis in_set_conv_decomp)
      with unknown_no_dot show False by simp
    qed
    moreover have "extract_domain U v \<noteq> []" using dom by simp
    ultimately show "\<exists>s l d. v = Str s \<and> count_list s 64 = 1 \<and> 64 \<in> set s \<and> split_chr 64 s = [l, d]
         \<and> extract_domain U v = re_sub_delete (not_filename_cls U) d
         \<and> extract_domain U v \<noteq> [] \<and> list_all filename_cls (extract_domain U v)
         \<and> extract_domain U v \<noteq> unknown"
      using s f(3) f(4) by blast
  qed
next
  let ?u = "Sibling q (py ''unknown-to-delete.csv'')"
  show "snd (main U env csv tx files) ?u = files ?u"
  proof (cases "csv = [] \<or> process_outcome U env csv tx = None")
    case True
    then show ?thesis by (auto simp: main_snd)
  next
    case False
    then obtain emails domain p where o: "process_outcome U env csv tx = Some (emails, domain, p)"
      by auto
    then obtain first where e: "validate_email first" "domain = extract_domain U first"
      by (rule process_outcome_Some)
    then obtain s where s: "first = Str s"
      by (cases first) (simp_all add: validate_email_def)
    from e s have "validate_email (Str s)" by simp
    then obtain l d t e where sh0: "s = l @ 64 # (d @ 46 # t) @ e" "e = [] \<or> e = [10]"
      "l \<noteq> []" "list_all local_cls l" "d \<noteq> []" "list_all domain_cls (d @ 46 # t)"
      "2 \<le> length t" "list_all alpha_cls t"
      by (rule valid_shape)
    note sh = sh0(1,2,4,6)
    have "domain = d @ 46 # t"
      using extract_domain_shape(1) [OF sh, where U = U] s \<open>domain = extract_domain U first\<close> by simp
    have "domain \<noteq> unknown"
    proof
      assume "domain = unknown"
      with \<open>domain = d @ 46 # t\<close> have "46 \<in> set unknown" by (metis in_set_conv_decomp)
      with unknown_no_dot show False by simp
    qed
    then have "output_path p domain \<noteq> ?u"
      by (simp add: output_path_def unknown_def py_def)
    with o False show ?thesis by (simp add: main_snd)
  qed
qed


theorem valid_email_domain_witness:
  "validate_email (Str (py ''a@x.com'' @ [10]))
   \<and> count_list (py ''a@x.com'' @ [10]) 64 = 1
   \<and> extract_domain ascii_only (Str (py ''a@x.com'' @ [10])) \<noteq> unknown
   \<and> list_all filename_cls (extract_domain ascii_only (Str (py ''a@x.com'' @ [10])))"
proof -
  have v: "validate_email (Str (py ''a@x.com'' @ [10]))"
    by code_simp
  show ?thesis
    using v valid_email_domain [of "Str (py ''a@x.com'' @ [10])" ascii_only
        "env_of [row_b] (Inr []) True" in_csv None Map.empty in_csv]
    by auto
qed

section \<open>The exclusion filter\<close>

text \<open>
  Claim C3. A row whose email, lower-cased, is in the exclusion set is absent from the file
  that the run writes; the exclusion filter, when it runs to its end, keeps exactly the rows
  without such a match, in their order; without an exclusion file the set is empty and no row
  is dropped.
\<close>

theorem exclusion_filter:
  "(read_csv env csv = Inr df \<longrightarrow> snd (main U env csv tx files) p = Some t \<longrightarrow> files p \<noteq> Some t
      \<longrightarrow> r \<in> set (rows df) \<longrightarrow> r email_column = Str s \<longrightarrow> str_lower U s \<in> exclusion_set U env tx
      \<longrightarrow> [Str s] \<notin> set (body t))
   \<and> (snd (phase2 U env tx dt rs) = Inr kept \<longrightarrow>
        kept = filter (\<lambda>r. \<not> (\<exists>s. r email_column = Str s \<and> str_lower U s \<in> exclusion_set U env tx)) rs)
   \<and> phase2 U env None dt rs = ([], Inr rs) \<and> exclusion_set U env None = {}"
proof (intro conjI impI)
  assume a: "read_csv env csv = Inr df" "snd (main U env csv tx files) p = Some t" "files p \<noteq> Some t"
    and s: "str_lower U s \<in> exclusion_set U env tx"
  from a(2,3) obtain emails domain where o: "process_outcome U env csv tx = Some (emails, domain, csv)"
    and t: "t = output_table emails"
    by (rule main_written)
  from o obtain df' where "emails = map (\<lambda>r. r email_column) (survivors U env tx df')"
    by (rule process_outcome_Some)
  then have e: "\<And>c. c \<in> set emails \<Longrightarrow> \<exists>r'. c = r' email_column \<and> \<not> excluded U (exclusion_set U env tx) r'"
    by (auto simp: survivors_def survives_def)
  have "Str s \<notin> set emails"
  proof
    assume "Str s \<in> set emails"
    with e obtain r' where "Str s = r' email_column" "\<not> excluded U (exclusion_set U env tx) r'"
      by blast
    then have "str_lower U s \<notin> exclusion_set U env tx"
      by (cases "r' email_column") (simp_all add: excluded_def)
    with s show False by simp
  qed
  with t show "[Str s] \<notin> set (body t)"
    by (auto simp: output_table_def)
next
  assume "snd (phase2 U env tx dt rs) = Inr kept"
  then have "kept = filter (\<lambda>r. \<not> excluded U (exclusion_set U env tx) r) rs"
    by (simp add: phase2_snd split: if_splits)
  moreover have "excluded U E r = (\<exists>s. r email_column = Str s \<and> str_lower U s \<in> E)" for E r
    by (simp add: excluded_def split: cell.splits)
  ultimately show "kept = filter (\<lambda>r. \<not> (\<exists>s. r email_column = Str s \<and> str_lower U s \<in> exclusion_set U env tx)) rs"
    by simp
next
  show "phase2 U env None dt rs = ([], Inr rs)" by (simp add: phase2_def)
  show "exclusion_set U env None = {}" by (simp add: exclusion_set_def)
qed

theorem exclusion_filter_witness:
  "read_csv env2 in_csv = Inr (mk_frame [row_a, row_b, row_d])
   \<and> snd (main ascii_only env2 in_csv (Some ex_txt) Map.empty) out_y = Some table_d
   \<and> row_b \<in> set (rows (mk_frame [row_a, row_b, row_d]))
   \<and> row_b email_column = Str (py ''b@x.com'')
   \<and> str_lower ascii_only (py ''b@x.com'') \<in> exclusion_set ascii_only env2 (Some ex_txt)
   \<and> [Str (py ''b@x.com'')] \<notin> set (body table_d)
   \<and> map (\<lambda>r. r email_column)
         (projr (snd (phase2 ascii_only env2 (Some ex_txt) ObjectDtype [row_b, row_d])))
       = [Str (py ''d@y.org'')]"
proof -
  have m: "str_lower ascii_only (py ''b@x.com'') \<in> exclusion_set ascii_only env2 (Some ex_txt)"
    by code_simp
  have r: "row_b \<in> set (rows (mk_frame [row_a, row_b, row_d]))"
    by (simp add: mk_frame_def)
  have k: "snd (phase2 ascii_only env2 (Some ex_txt) ObjectDtype [row_b, row_d])
        = Inr (filter (\<lambda>r. \<not> excluded ascii_only {py ''b@x.com''} r) [row_b, row_d])"
    by (simp add: phase2_snd excl2)
  note f = exclusion_filter [of env2 in_csv "mk_frame [row_a, row_b, row_d]" ascii_only "Some ex_txt"
      Map.empty out_y table_d row_b "py ''b@x.com''" ObjectDtype "[row_b, row_d]"
      "filter (\<lambda>r. \<not> excluded ascii_only {py ''b@x.com''} r) [row_b, row_d]"]
  from f run2_read run2 r row_b_email m have 1: "[Str (py ''b@x.com'')] \<notin> set (body table_d)"
    by simp
  from f k have "filter (\<lambda>r. \<not> excluded ascii_only {py ''b@x.com''} r) [row_b, row_d]
      = filter (\<lambda>r. \<not> (\<exists>s. r email_column = Str s
            \<and> str_lower ascii_only s \<in> exclusion_set ascii_only env2 (Some ex_txt))) [row_b, row_d]"
    by blast
  also have "\<dots> = [row_d]"
    by (simp add: excl2 row_b_email row_d_email) (simp add: ascii_only_def py_def)
  finally have 2: "map (\<lambda>r. r email_column)
         (projr (snd (phase2 ascii_only env2 (Some ex_txt) ObjectDtype [row_b, row_d])))
       = [Str (py ''d@y.org'')]"
    using k by (simp add: row_d_email)
  from run2_read run2 r row_b_email m 1 2 show ?thesis by simp
qed

section \<open>Order of the output\<close>

text \<open>
  Claim C5. The rows of the written file are the email fields of the rows of the table that
  pass the login-status filter, the exclusion filter and the validation, in the order of the
  table.
\<close>

theorem output_order:
  assumes "read_csv env csv = Inr df"
    and "snd (main U env csv tx files) p = Some t" and "files p \<noteq> Some t"
  shows "body t = map (\<lambda>r. [r email_column])
            (filter (\<lambda>r. r status_column \<noteq> Str never_logged_in
                        \<and> \<not> excluded U (exclusion_set U env tx) r
                        \<and> validate_email (r email_column)) (rows df))"
proof -
  from assms(2,3) obtain emails domain where o: "process_outcome U env csv tx = Some (emails, domain, csv)"
    and t: "t = output_table emails"
    by (rule main_written)
  from o obtain df' where "read_csv env csv = Inr df'"
    "emails = map (\<lambda>r. r email_column) (survivors U env tx df')"
    by (rule process_outcome_Some)
  with assms(1) have "emails = map (\<lambda>r. r email_column) (survivors U env tx df)" by simp
  with t show ?thesis
    by (simp add: output_table_def survivors_def survives_def [abs_def] logged_in_def o_def)
qed

theorem output_order_witness:
  "read_csv (env_of [row_a, row_b, row_bad] (Inr []) True) in_csv = Inr (mk_frame [row_a, row_b, row_bad])
   \<and> snd (main ascii_only (env_of [row_a, row_b, row_bad] (Inr []) True) in_csv None Map.empty) out_x = Some table_b
   \<and> Map.empty out_x \<noteq> Some table_b
   \<and> body table_b = map (\<lambda>r. [r email_column])
            (filter (\<lambda>r. r status_column \<noteq> Str never_logged_in
                        \<and> \<not> excluded ascii_only (exclusion_set ascii_only (env_of [row_a, row_b, row_bad] (Inr []) True) None) r
                        \<and> validate_email (r email_column)) (rows (mk_frame [row_a, row_b, row_bad])))"
  using output_order [OF run1_read run1] run1 run1_read by simp

section \<open>The written table\<close>

text \<open>
  Claim C7. Writing N emails gives a table with the one header \<open>primaryEmail\<close> and N records
  of one field each, the emails in their order; there is no index column (with
  \<open>index=True\<close> the header would have two fields).
\<close>

theorem save_output_table:
  assumes "emails \<noteq> []" and "can_write env (Sibling csv (domain @ py ''-to-delete.csv''))"
  shows "\<exists>ev t. save_output env emails domain csv files
            = (ev, Some (Sibling csv (domain @ py ''-to-delete.csv'')),
               files(Sibling csv (domain @ py ''-to-delete.csv'') \<mapsto> t))
          \<and> header t = [py ''primaryEmail'']
          \<and> length (body t) = length emails
          \<and> body t = map (\<lambda>e. [e]) emails
          \<and> t = render False (output_frame emails)
          \<and> length (header (render True (output_frame emails))) = 2"
  using assms(2)
  by (simp add: save_output_eq output_path_def output_table_def render_output_frame)
     (simp add: render_def output_frame_def)

theorem save_output_table_witness:
  "[Str (py ''b@x.com'')] \<noteq> []
   \<and> can_write env2 (Sibling in_csv (py ''x.com'' @ py ''-to-delete.csv''))
   \<and> fst (snd (save_output env2 [Str (py ''b@x.com'')] (py ''x.com'') in_csv Map.empty))
        = Some (Sibling in_csv (py ''x.com'' @ py ''-to-delete.csv''))
   \<and> snd (snd (save_output env2 [Str (py ''b@x.com'')] (py ''x.com'') in_csv Map.empty))
          (Sibling in_csv (py ''x.com'' @ py ''-to-delete.csv'')) = Some table_b"
proof -
  have w: "can_write env2 (Sibling in_csv (py ''x.com'' @ py ''-to-delete.csv''))"
    by (simp add: env2_def env_of_def)
  from save_output_table [of "[Str (py ''b@x.com'')]" env2 in_csv "py ''x.com''" Map.empty] w
  show ?thesis by (auto simp: table_b_def)
qed

section \<open>Runs that stop without output\<close>

text \<open>
  Claim C4. When a mandatory column is missing, when no row passes the login-status filter,
  or when no valid email is left, the run leaves the files as they were and shows a notice:
  an error dialog with the \<open>ValueError\<close> of the missing columns, the warning \<open>No Data\<close>, and
  the warning \<open>No Valid Emails\<close> (or, when \<open>.str\<close> raised before the validation, an error
  dialog).
\<close>

theorem abort_no_output:
  assumes "csv \<noteq> []" and "read_csv env csv = Inr df"
  shows "(\<not> set required_columns \<subseteq> set (columns df) \<longrightarrow>
            snd (main U env csv tx files) = files
          \<and> ShowError Processing_csv (ValueError (filter (\<lambda>col. col \<notin> set (columns df)) required_columns))
              \<in> set (fst (main U env csv tx files)))
       \<and> (set required_columns \<subseteq> set (columns df) \<and> phase1 (rows df) = [] \<longrightarrow>
            snd (main U env csv tx files) = files
          \<and> ShowWarning NoData \<in> set (fst (main U env csv tx files)))
       \<and> (set required_columns \<subseteq> set (columns df) \<and> phase1 (rows df) \<noteq> []
            \<and> filter (survives U (exclusion_set U env tx)) (rows df) = [] \<longrightarrow>
            snd (main U env csv tx files) = files
          \<and> (ShowWarning NoValidEmails \<in> set (fst (main U env csv tx files))
             \<or> ShowError Processing_csv AttributeError \<in> set (fst (main U env csv tx files))))"
proof (intro conjI impI)
  note sub = main_events_sub [OF assms(1), of U env tx files]
  {
    assume c: "\<not> set required_columns \<subseteq> set (columns df)"
    with assms(2) have "process_outcome U env csv tx = None"
      by (simp add: process_outcome_def)
    then show "snd (main U env csv tx files) = files"
      by (rule process_outcome_None_main)
    from process_csv_schema_event [OF assms(2) c, of U tx] sub
    show "ShowError Processing_csv (ValueError (filter (\<lambda>col. col \<notin> set (columns df)) required_columns))
              \<in> set (fst (main U env csv tx files))"
      by blast
  }
  {
    assume c: "set required_columns \<subseteq> set (columns df) \<and> phase1 (rows df) = []"
    with assms(2) have "process_outcome U env csv tx = None"
      by (simp add: process_outcome_def phase1_filter)
    then show "snd (main U env csv tx files) = files"
      by (rule process_outcome_None_main)
    from c process_csv_no_data_event [OF assms(2), of U tx] sub
    show "ShowWarning NoData \<in> set (fst (main U env csv tx files))"
      by blast
  }
  {
    assume c: "set required_columns \<subseteq> set (columns df) \<and> phase1 (rows df) \<noteq> []
            \<and> filter (survives U (exclusion_set U env tx)) (rows df) = []"
    then have s: "survivors U env tx df = []" by (simp add: survivors_def)
    with assms(2) have "process_outcome U env csv tx = None"
      by (simp add: process_outcome_def)
    then show "snd (main U env csv tx files) = files"
      by (rule process_outcome_None_main)
    from c s process_csv_after_phase1_event [OF assms(2), of U tx] sub
    show "ShowWarning NoValidEmails \<in> set (fst (main U env csv tx files))
             \<or> ShowError Processing_csv AttributeError \<in> set (fst (main U env csv tx files))"
      by blast
  }
qed

theorem abort_no_output_witness:
  "in_csv \<noteq> []
   \<and> read_csv env_no_status in_csv = Inr frame_no_status
   \<and> \<not> set required_columns \<subseteq> set (columns frame_no_status)
   \<and> snd (main ascii_only env_no_status in_csv None Map.empty) = Map.empty
   \<and> ShowError Processing_csv (ValueError [status_column])
        \<in> set (fst (main ascii_only env_no_status in_csv None Map.empty))
   \<and> phase1 (rows (mk_frame [row_a])) = []
   \<and> snd (main ascii_only (env_of [row_a] (Inr []) True) in_csv None Map.empty) = Map.empty
   \<and> ShowWarning NoData \<in> set (fst (main ascii_only (env_of [row_a] (Inr []) True) in_csv None Map.empty))
   \<and> phase1 (rows (mk_frame [row_bad])) \<noteq> []
   \<and> filter (survives ascii_only (exclusion_set ascii_only (env_of [row_bad] (Inr []) True) None))
         (rows (mk_frame [row_bad])) = []
   \<and> snd (main ascii_only (env_of [row_bad] (Inr []) True) in_csv None Map.empty) = Map.empty
   \<and> ShowWarning NoValidEmails
        \<in> set (fst (main ascii_only (env_of [row_bad] (Inr []) True) in_csv None Map.empty))"
proof -
  have r1: "read_csv env_no_status in_csv = Inr frame_no_status"
    by (simp add: env_no_status_def)
  have c1: "\<not> set required_columns \<subseteq> set (columns frame_no_status)"
    by (simp add: required_columns_def frame_no_status_def status_column_def email_column_def py_def)
  have m1: "filter (\<lambda>col. col \<notin> set (columns frame_no_status)) required_columns = [status_column]"
    by (simp add: required_columns_def frame_no_status_def status_column_def email_column_def py_def)
  have r2: "read_csv (env_of [row_a] (Inr []) True) in_csv = Inr (mk_frame [row_a])"
    by (simp add: env_of_def)
  have c2: "set required_columns \<subseteq> set (columns (mk_frame rs))" for rs
    by (simp add: required_columns_def mk_frame_def)
  have p2: "phase1 (rows (mk_frame [row_a])) = []"
    by (simp add: phase1_def bool_index_def mk_frame_def row_a_def mk_row_def never_logged_in_def
        status_column_def email_column_def py_def)
  have r3: "read_csv (env_of [row_bad] (Inr []) True) in_csv = Inr (mk_frame [row_bad])"
    by (simp add: env_of_def)
  have p3: "phase1 (rows (mk_frame [row_bad])) \<noteq> []"
    by (simp add: phase1_def bool_index_def mk_frame_def row_bad_def mk_row_def never_logged_in_def
        status_column_def email_column_def py_def)
  have v3: "\<not> validate_email (Str (py ''bad@@x''))"
    by code_simp
  have s3: "filter (survives ascii_only (exclusion_set ascii_only (env_of [row_bad] (Inr []) True) None))
         (rows (mk_frame [row_bad])) = []"
    using v3 by (simp add: survives_def mk_frame_def row_bad_def mk_row_def)
  have n3: "ShowError Processing_csv AttributeError
        \<notin> set (fst (main ascii_only (env_of [row_bad] (Inr []) True) in_csv None Map.empty))"
    by code_simp
  note a1 = abort_no_output [OF in_csv_nonempty r1, of ascii_only None Map.empty]
  note a2 = abort_no_output [OF in_csv_nonempty r2, of ascii_only None Map.empty]
  note a3 = abort_no_output [OF in_csv_nonempty r3, of ascii_only None Map.empty]
  from a1 c1 m1 have 1: "snd (main ascii_only env_no_status in_csv None Map.empty) = Map.empty"
    "ShowError Processing_csv (ValueError [status_column])
        \<in> set (fst (main ascii_only env_no_status in_csv None Map.empty))"
    by simp_all
  from a2 c2 p2 have 2: "snd (main ascii_only (env_of [row_a] (Inr []) True) in_csv None Map.empty) = Map.empty"
    "ShowWarning NoData \<in> set (fst (main ascii_only (env_of [row_a] (Inr []) True) in_csv None Map.empty))"
    by simp_all
  from a3 c2 p3 s3 n3 have 3: "snd (main ascii_only (env_of [row_bad] (Inr []) True) in_csv None Map.empty) = Map.empty"
    "ShowWarning NoValidEmails
        \<in> set (fst (main ascii_only (env_of [row_bad] (Inr []) True) in_csv None Map.empty))"
    by simp_all
  from in_csv_nonempty r1 c1 1 p2 2 p3 s3 3 show ?thesis by simp
qed

section \<open>The name of the output file\<close>

text \<open>
  Claim C6. When \<open>process_csv\<close> returns valid emails, the file is named after the first of
  them: the substring after its first \<open>@\<close>, stripped to \<open>[A-Za-z0-9._-]\<close>, followed by
  \<open>-to-delete.csv\<close>, beside the input file. Several domains change nothing but a printed
  line: no dialog is shown by \<open>process_csv\<close> and the same file is written.
\<close>

theorem output_file_name:
  assumes "csv \<noteq> []" and "snd (process_csv U env csv tx) = Some (emails, domain, p)"
  shows "\<exists>s rest. emails = Str s # rest \<and> validate_email (Str s)
      \<and> domain = stripped_domain s \<and> p = csv
      \<and> snd (main U env csv tx files)
          = (if can_write env (Sibling csv (stripped_domain s @ py ''-to-delete.csv''))
             then files(Sibling csv (stripped_domain s @ py ''-to-delete.csv'')
                          \<mapsto> render False (output_frame emails))
             else files)
      \<and> (\<forall>e \<in> set (fst (process_csv U env csv tx)). \<not> is_notice e)
      \<and> (1 < card (set (map (extract_domain U) emails)) \<longrightarrow>
            Log (Multiple_domains (set (map (extract_domain U) emails)))
              \<in> set (fst (process_csv U env csv tx)))"
proof -
  from assms(2) have o: "process_outcome U env csv tx = Some (emails, domain, p)"
    using process_csv_char [of U env csv tx] by simp
  then obtain first rest where e: "emails = first # rest" "validate_email first"
    "domain = extract_domain U first" "p = csv"
    by (rule process_outcome_Some)
  from e(2) obtain s where s: "first = Str s"
    by (cases first) (simp_all add: validate_email_def)
  from e(2) s have "validate_email (Str s)" by simp
  then obtain l d t x where sh0: "s = l @ 64 # (d @ 46 # t) @ x" "x = [] \<or> x = [10]"
    "l \<noteq> []" "list_all local_cls l" "d \<noteq> []" "list_all domain_cls (d @ 46 # t)"
    "2 \<le> length t" "list_all alpha_cls t"
    by (rule valid_shape)
  note sh = sh0(1,2,4,6)
  have dom: "domain = stripped_domain s"
    using extract_domain_shape(1) [OF sh, where U = U] extract_domain_shape(2) [OF sh] e(3) s
    by simp
  have m: "snd (main U env csv tx files)
          = (if can_write env (Sibling csv (stripped_domain s @ py ''-to-delete.csv''))
             then files(Sibling csv (stripped_domain s @ py ''-to-delete.csv'')
                          \<mapsto> render False (output_frame emails))
             else files)"
    using o e(4) dom assms(1) by (simp add: main_snd output_path_def render_output_frame)
  have n: "\<forall>e \<in> set (fst (process_csv U env csv tx)). \<not> is_notice e"
    using process_csv_char [of U env csv tx] o by simp
  have w: "1 < card (set (map (extract_domain U) emails)) \<longrightarrow>
            Log (Multiple_domains (set (map (extract_domain U) emails)))
              \<in> set (fst (process_csv U env csv tx))"
    using process_csv_multiple_event [OF o] by blast
  from e(1) s \<open>validate_email (Str s)\<close> dom e(4) m n w show ?thesis by blast
qed

theorem output_file_name_witness:
  "in_csv \<noteq> []
   \<and> snd (process_csv ascii_only env_two in_csv None)
       = Some ([Str (py ''b@x.com''), Str (py ''d@y.org'')], py ''x.com'', in_csv)
   \<and> stripped_domain (py ''b@x.com'') = py ''x.com''
   \<and> snd (main ascii_only env_two in_csv None Map.empty)
       = [Sibling in_csv (py ''x.com-to-delete.csv'')
            \<mapsto> render False (output_frame [Str (py ''b@x.com''), Str (py ''d@y.org'')])]
   \<and> 1 < card (set (map (extract_domain ascii_only) [Str (py ''b@x.com''), Str (py ''d@y.org'')]))
   \<and> Log (Multiple_domains (set (map (extract_domain ascii_only) [Str (py ''b@x.com''), Str (py ''d@y.org'')])))
        \<in> set (fst (process_csv ascii_only env_two in_csv None))"
proof -
  have sd: "stripped_domain (py ''b@x.com'') = py ''x.com''"
    by code_simp
  have w: "can_write env_two q" for q
    by (simp add: env_two_def env_of_def)
  have sfx: "py ''x.com'' @ py ''-to-delete.csv'' = py ''x.com-to-delete.csv''"
    by (simp add: py_def)
  from output_file_name [OF in_csv_nonempty run_two, of Map.empty] two_domains
  have "snd (main ascii_only env_two in_csv None Map.empty)
       = [Sibling in_csv (py ''x.com-to-delete.csv'')
            \<mapsto> render False (output_frame [Str (py ''b@x.com''), Str (py ''d@y.org'')])]"
    and "Log (Multiple_domains (set (map (extract_domain ascii_only) [Str (py ''b@x.com''), Str (py ''d@y.org'')])))
        \<in> set (fst (process_csv ascii_only env_two in_csv None))"
    using sd w sfx by auto
  with in_csv_nonempty run_two sd two_domains show ?thesis by simp
qed

section \<open>The validator and a trailing newline\<close>

text \<open>
  Claim C2 says that the validator accepts a value exactly when the whole value matches
  the pattern. The value \<open>a@x.com\<close> followed by a newline is accepted, though it is no full
  match, because \<open>$\<close> also holds before a final newline; the run then writes that value,
  newline included.
\<close>

theorem validate_email_trailing_newline:
  "validate_email (Str (py ''a@x.com'' @ [10]))
   \<and> \<not> matches_fully (py ''a@x.com'' @ [10])
   \<and> snd (main ascii_only (env_of [row_nl] (Inr []) True) in_csv None Map.empty) out_x = Some table_nl"
proof -
  have 1: "validate_email (Str (py ''a@x.com'' @ [10]))"
    by code_simp
  have "\<not> alpha_cls (last (py ''a@x.com'' @ [10]))"
    by (simp add: alpha_cls_def az_def AZ_def)
  with matches_fully_last have 2: "\<not> matches_fully (py ''a@x.com'' @ [10])"
    by blast
  have 3: "snd (main ascii_only (env_of [row_nl] (Inr []) True) in_csv None Map.empty) out_x = Some table_nl"
    by code_simp
  from 1 2 3 show ?thesis by simp
qed

section \<open>Files that cannot be read or written\<close>

text \<open>
  Claim C9 says that every unreadable input file, the exclusion file included, stops the run
  with an error notice and without output. With an unreadable exclusion file the run goes on:
  \<open>load_exclusion_emails\<close> catches the exception, prints a line and returns the empty set, and
  the output is written with no dialog of warning or error.
\<close>

theorem unreadable_exclusion_counterexample:
  "read_lines env_unreadable ex_txt = Inl ReadError
   \<and> snd (main ascii_only env_unreadable in_csv (Some ex_txt) Map.empty) out_x = Some table_b
   \<and> \<not> list_ex is_notice (fst (main ascii_only env_unreadable in_csv (Some ex_txt) Map.empty))"
  by code_simp

text \<open>
  Claim C9 as amended. An unreadable table and an unwritable output location stop the run
  with an error dialog and leave the files as they were; an unreadable exclusion file is
  printed, counts as an empty exclusion set, and the run writes what it writes without an
  exclusion file.
\<close>

theorem io_failures:
  "(csv \<noteq> [] \<longrightarrow> read_csv env csv = Inl e \<longrightarrow>
       snd (main U env csv tx files) = files
     \<and> ShowError Processing_csv e \<in> set (fst (main U env csv tx files)))
   \<and> (csv \<noteq> [] \<longrightarrow> snd (process_csv U env csv tx) = Some (emails, domain, p) \<longrightarrow>
       \<not> can_write env (Sibling p (domain @ py ''-to-delete.csv'')) \<longrightarrow>
       snd (main U env csv tx files) = files
     \<and> ShowError Saving_output WriteError \<in> set (fst (main U env csv tx files)))
   \<and> (read_lines env tp = Inl e' \<longrightarrow>
       load_exclusion_emails U env tp = ({}, [Log (Error_reading_exclusions e')])
     \<and> snd (main U env csv (Some tp) files) = snd (main U env csv None files))"
proof (intro conjI impI)
  {
    assume c: "csv \<noteq> []" and r: "read_csv env csv = Inl e"
    from r have "process_outcome U env csv tx = None"
      by (simp add: process_outcome_def)
    then show "snd (main U env csv tx files) = files"
      by (rule process_outcome_None_main)
    from r have "ShowError Processing_csv e \<in> set (fst (process_csv U env csv tx))"
      by (simp add: process_csv_def process_csv_try_def)
    with main_events_sub [OF c, of U env tx files]
    show "ShowError Processing_csv e \<in> set (fst (main U env csv tx files))"
      by blast
  }
  {
    assume c: "csv \<noteq> []" and s: "snd (process_csv U env csv tx) = Some (emails, domain, p)"
      and w: "\<not> can_write env (Sibling p (domain @ py ''-to-delete.csv''))"
    obtain ev where pc: "process_csv U env csv tx = (ev, Some (emails, domain, p))"
      using s by (cases "process_csv U env csv tx") simp
    from pc c w show "snd (main U env csv tx files) = files"
      by (simp add: main_def save_output_eq output_path_def Let_def)
    from pc c w show "ShowError Saving_output WriteError \<in> set (fst (main U env csv tx files))"
      by (simp add: main_def save_output_eq output_path_def Let_def)
  }
  {
    assume r: "read_lines env tp = Inl e'"
    then show l: "load_exclusion_emails U env tp = ({}, [Log (Error_reading_exclusions e')])"
      by (simp add: load_exclusion_emails_def)
    then have "exclusion_set U env (Some tp) = exclusion_set U env None"
      by (simp add: exclusion_set_def)
    then have "process_outcome U env csv (Some tp) = process_outcome U env csv None"
      by (rule process_outcome_cong)
    then show "snd (main U env csv (Some tp) files) = snd (main U env csv None files)"
      by (simp add: main_snd)
  }
qed

theorem io_failures_witness:
  "in_csv \<noteq> []
   \<and> read_csv env_no_csv in_csv = Inl ReadError
   \<and> snd (main ascii_only env_no_csv in_csv None Map.empty) = Map.empty
   \<and> ShowError Processing_csv ReadError \<in> set (fst (main ascii_only env_no_csv in_csv None Map.empty))
   \<and> snd (process_csv ascii_only env_unwritable in_csv None) = Some ([Str (py ''b@x.com'')], py ''x.com'', in_csv)
   \<and> \<not> can_write env_unwritable (Sibling in_csv (py ''x.com'' @ py ''-to-delete.csv''))
   \<and> snd (main ascii_only env_unwritable in_csv None Map.empty) = Map.empty
   \<and> ShowError Saving_output WriteError \<in> set (fst (main ascii_only env_unwritable in_csv None Map.empty))
   \<and> read_lines env_unreadable ex_txt = Inl ReadError
   \<and> load_exclusion_emails ascii_only env_unreadable ex_txt = ({}, [Log (Error_reading_exclusions ReadError)])
   \<and> snd (main ascii_only env_unreadable in_csv (Some ex_txt) Map.empty)
       = snd (main ascii_only env_unreadable in_csv None Map.empty)"
proof -
  have r1: "read_csv env_no_csv in_csv = Inl ReadError"
    by (simp add: env_no_csv_def)
  have w2: "\<not> can_write env_unwritable (Sibling in_csv (py ''x.com'' @ py ''-to-delete.csv''))"
    by (simp add: env_unwritable_def env_of_def)
  have r3: "read_lines env_unreadable ex_txt = Inl ReadError"
    by (simp add: env_unreadable_def env_of_def)
  from io_failures [of in_csv env_no_csv ReadError ascii_only None Map.empty
      "[Str (py ''b@x.com'')]" "py ''x.com''" in_csv ex_txt ReadError] in_csv_nonempty r1
  have 1: "snd (main ascii_only env_no_csv in_csv None Map.empty) = Map.empty"
    "ShowError Processing_csv ReadError \<in> set (fst (main ascii_only env_no_csv in_csv None Map.empty))"
    by simp_all
  from io_failures [of in_csv env_unwritable ReadError ascii_only None Map.empty
      "[Str (py ''b@x.com'')]" "py ''x.com''" in_csv ex_txt ReadError] in_csv_nonempty run_unwritable w2
  have 2: "snd (main ascii_only env_unwritable in_csv None Map.empty) = Map.empty"
    "ShowError Saving_output WriteError \<in> set (fst (main ascii_only env_unwritable in_csv None Map.empty))"
    by simp_all
  from io_failures [of in_csv env_unreadable ReadError ascii_only None Map.empty
      "[Str (py ''b@x.com'')]" "py ''x.com''" in_csv ex_txt ReadError] r3
  have 3: "load_exclusion_emails ascii_only env_unreadable ex_txt = ({}, [Log (Error_reading_exclusions ReadError)])"
    "snd (main ascii_only env_unreadable in_csv (Some ex_txt) Map.empty)
       = snd (main ascii_only env_unreadable in_csv None Map.empty)"
    by simp_all
  from in_csv_nonempty r1 1 run_unwritable w2 2 r3 3 show ?thesis by simp
qed

section \<open>The exclusion set\<close>

text \<open>
  Claim C8. The exclusion set is the union, over the lines of the file, of what each line adds,
  so neither order nor repetition of lines matters. A line adds the lower-cased first match of
  the unanchored pattern in the stripped line, and nothing when there is none; the match is a
  substring of the line that matches the pattern fully, and there is a match whenever the
  line has such a substring. A stripped line that is itself a valid email adds the whole line,
  lower-cased.
\<close>

theorem exclusion_set_lines:
  "fst (load_exclusion_emails U env tp)
     = (case read_lines env tp of Inl e \<Rightarrow> {} | Inr lines \<Rightarrow> (\<Union>raw \<in> set lines. line_emails U raw))
   \<and> line_emails U raw
       = (case re_search search_pattern (py_strip raw) of None \<Rightarrow> {} | Some m \<Rightarrow> {str_lower U m})
   \<and> (re_search search_pattern s = Some m \<longrightarrow> matches_fully m \<and> (\<exists>pre post. s = pre @ m @ post))
   \<and> ((\<exists>pre e post. s = pre @ e @ post \<and> matches_fully e) \<longrightarrow> re_search search_pattern s \<noteq> None)
   \<and> (validate_email (Str (py_strip raw)) \<longrightarrow> line_emails U raw = {str_lower U (py_strip raw)})"
proof (intro conjI impI)
  show "fst (load_exclusion_emails U env tp)
     = (case read_lines env tp of Inl e \<Rightarrow> {} | Inr lines \<Rightarrow> (\<Union>raw \<in> set lines. line_emails U raw))"
    by (cases "read_lines env tp") (simp_all add: load_exclusion_emails_def Let_def add_lines_union)
  show "line_emails U raw
       = (case re_search search_pattern (py_strip raw) of None \<Rightarrow> {} | Some m \<Rightarrow> {str_lower U m})"
    by (rule line_emails_eq)
  {
    assume a: "re_search search_pattern s = Some m"
    then show "matches_fully m" by (rule search_sound(1))
    from a show "\<exists>pre post. s = pre @ m @ post" by (rule search_sound(2))
  }
  {
    assume "\<exists>pre e post. s = pre @ e @ post \<and> matches_fully e"
    then obtain pre e post where "s = pre @ e @ post" "matches_fully e" by blast
    then show "re_search search_pattern s \<noteq> None" by (rule search_complete)
  }
  {
    assume "validate_email (Str (py_strip raw))"
    then have "matches_fully (py_strip raw)" by (rule valid_stripped_full)
    then have "re_search search_pattern (py_strip raw) = Some (py_strip raw)" by (rule search_full)
    then show "line_emails U raw = {str_lower U (py_strip raw)}"
      by (simp add: line_emails_eq)
  }
qed

theorem exclusion_set_lines_witness:
  "re_search search_pattern (py_strip contact_line) = Some (py ''C@x.com'')
   \<and> matches_fully (py ''C@x.com'')
   \<and> line_emails ascii_only contact_line = {py ''c@x.com''}
   \<and> validate_email (Str (py_strip bare_line))
   \<and> line_emails ascii_only bare_line = {py ''c@x.com''}
   \<and> fst (load_exclusion_emails ascii_only env_lines ex_txt) = {py ''c@x.com''}"
proof -
  note t1 = exclusion_set_lines [of ascii_only env_lines ex_txt contact_line "py_strip contact_line" "py ''C@x.com''"]
  note t2 = exclusion_set_lines [of ascii_only env_lines ex_txt bare_line "py_strip contact_line" "py ''C@x.com''"]
  from t1 search_contact have 1: "matches_fully (py ''C@x.com'')" by blast
  from t1 have "line_emails ascii_only contact_line
       = (case re_search search_pattern (py_strip contact_line) of None \<Rightarrow> {}
          | Some m \<Rightarrow> {str_lower ascii_only m})"
    by blast
  with search_contact lower_contact have 2: "line_emails ascii_only contact_line = {py ''c@x.com''}"
    by simp
  from t2 valid_bare have "line_emails ascii_only bare_line = {str_lower ascii_only (py_strip bare_line)}"
    by blast
  with lower_bare have 3: "line_emails ascii_only bare_line = {py ''c@x.com''}"
    by simp
  have n: "re_search search_pattern (py_strip (py ''no email here'' @ [10])) = None"
    "re_search search_pattern (py_strip [10]) = None"
    by code_simp+
  have 4: "line_emails ascii_only (py ''no email here'' @ [10]) = {}"
    "line_emails ascii_only [10] = {}"
    using n by (simp_all add: line_emails_eq)
  have r: "read_lines env_lines ex_txt = Inr [contact_line, bare_line, py ''no email here'' @ [10], [10] ]"
    by (simp add: env_lines_def env_of_def)
  from t1 have "fst (load_exclusion_emails ascii_only env_lines ex_txt)
     = (case read_lines env_lines ex_txt of Inl e \<Rightarrow> {}
        | Inr lines \<Rightarrow> (\<Union>raw \<in> set lines. line_emails ascii_only raw))"
    by blast
  with r 2 3 4 have 5: "fst (load_exclusion_emails ascii_only env_lines ex_txt) = {py ''c@x.com''}"
    by simp
  from search_contact 1 2 valid_bare 3 5 show ?thesis by simp
qed

end
